theory Spec2Isabelle
  imports Complex_Main "HOL-Library.Word"
begin

section \<open>The Number type of the source language\<close>

text \<open>
  Every numeric value of the program is an ECMAScript Number, an IEEE 754 binary64
  value. Byte counts, chunk counts and indices are non-negative integers; as long as
  they stay at or below \<open>MAX_SAFE_INTEGER\<close> the operations \<open>+\<close>, \<open>*\<close>, \<open>++\<close>, \<open>%\<close>,
  \<open>Math.min\<close> and the comparisons are exact on them, and they are modelled by
  \<^typ>\<open>nat\<close>. The quotient of two such integers is in general not an integer and is
  rounded to the nearest binary64 value, ties to even; so is its product with 100.
  These two operations are modelled with the rounding written out
  (\<open>round_double\<close>); the exponent range of binary64 is not modelled, since the
  quotients and products that occur lie between \<open>2\<^sup>-\<^sup>5\<^sup>3\<close> and \<open>2\<^sup>6\<^sup>0\<close>.
\<close>

definition MAX_SAFE_INTEGER :: nat where
  "MAX_SAFE_INTEGER = 2 ^ 53 - 1"

text \<open>\<open>log2floor n\<close> is the position of the leading binary digit of \<open>n\<close>.\<close>

fun log2floor :: "nat \<Rightarrow> nat" where
  "log2floor n = (if n < 2 then 0 else Suc (log2floor (n div 2)))"

declare log2floor.simps [simp del]

text \<open>The binary exponent \<open>e\<close> of a positive real: \<open>2\<^sup>e \<le> x < 2\<^sup>e\<^sup>+\<^sup>1\<close>.\<close>

definition binade :: "real \<Rightarrow> int" where
  "binade x = (if 1 \<le> x then int (log2floor (nat \<lfloor>x\<rfloor>))
               else - int (Suc (log2floor (nat \<lceil>1 / x\<rceil> - 1))))"

text \<open>Rounding to the nearest integer, a tie going to the even neighbour.\<close>

definition ties_to_even :: "real \<Rightarrow> int" where
  "ties_to_even x =
     (let f = \<lfloor>x\<rfloor>; r = x - of_int f
      in if r < 1 / 2 then f
         else if 1 / 2 < r then f + 1
         else if even f then f else f + 1)"

text \<open>
  The binary64 value nearest to a real: the significand has 53 binary digits, so
  the spacing of representable values around \<open>x\<close> is \<open>2\<^sup>e\<^sup>-\<^sup>5\<^sup>2\<close>.
\<close>

definition round_double :: "real \<Rightarrow> real" where
  "round_double x =
     (if x = 0 then 0
      else let ulp = 2 powi (binade \<bar>x\<bar> - 52)
           in sgn x * of_int (ties_to_even (\<bar>x\<bar> / ulp)) * ulp)"

datatype number = Finite real | PosInfinity | NaN

text \<open>\<open>a / b\<close> for non-negative integer operands; dividing by zero does not raise.\<close>

definition js_div :: "nat \<Rightarrow> nat \<Rightarrow> number" where
  "js_div a b =
     (if b = 0 then (if a = 0 then NaN else PosInfinity)
      else Finite (round_double (real a / real b)))"

text \<open>\<open>x * c\<close> for a positive integer constant \<open>c\<close>.\<close>

fun js_times :: "number \<Rightarrow> nat \<Rightarrow> number" where
  "js_times (Finite x) c = Finite (round_double (x * real c))"
| "js_times PosInfinity c = PosInfinity"
| "js_times NaN c = NaN"

text \<open>\<open>Math.round\<close>: the nearest integer, a tie going towards \<open>+\<infinity>\<close>.\<close>

fun Math_round :: "number \<Rightarrow> number" where
  "Math_round (Finite x) = Finite (of_int \<lfloor>x + 1 / 2\<rfloor>)"
| "Math_round PosInfinity = PosInfinity"
| "Math_round NaN = NaN"

text \<open>\<open>Math.round((a / b) * 100)\<close>, the expression both progress reports compute.\<close>

definition percent :: "nat \<Rightarrow> nat \<Rightarrow> number" where
  "percent a b = Math_round (js_times (js_div a b) 100)"

text \<open>The order \<open>\<le>\<close> of Numbers; \<open>NaN\<close> compares false with everything.\<close>

fun num_le :: "number \<Rightarrow> number \<Rightarrow> bool" where
  "num_le (Finite x) (Finite y) = (x \<le> y)"
| "num_le (Finite x) PosInfinity = True"
| "num_le PosInfinity PosInfinity = True"
| "num_le PosInfinity (Finite y) = False"
| "num_le NaN y = False"
| "num_le x NaN = False"

section \<open>The frames of the transfer protocol\<close>

type_synonym ArrayBuffer = "8 word list"

definition CHUNK_SIZE :: nat where
  "CHUNK_SIZE = 16 * 1024"

record FileMetadata =
  fileName :: string
  fileType :: string
  fileSize :: nat
  totalChunks :: nat

record FileChunk =
  index :: nat
  data :: ArrayBuffer

datatype FileMessage = Metadata FileMetadata | Chunk FileChunk | Complete

section \<open>FileSender\<close>

record File =
  name :: string
  type :: string
  content :: ArrayBuffer

definition file_size :: "File \<Rightarrow> nat" where
  "file_size f = length (content f)"

text \<open>
  \<open>Blob.slice(start, end)\<close> followed by \<open>arrayBuffer()\<close>: both positions are clamped
  to the size, and an empty range gives no bytes.
\<close>

definition file_slice :: "File \<Rightarrow> nat \<Rightarrow> nat \<Rightarrow> ArrayBuffer" where
  "file_slice f start finish =
     (let relativeStart = min start (file_size f);
          relativeEnd = min finish (file_size f)
      in take (relativeEnd - relativeStart) (drop relativeStart (content f)))"

text \<open>
  The sender holds the file and the nullable \<open>onProgress\<close> field (here: whether a
  callback is assigned). What \<open>send\<close> does to the outside is recorded in order:
  a frame handed to \<open>connection.send\<close>, a call of \<open>onProgress\<close>, a \<open>setTimeout\<close>
  the loop awaits. The connection is taken to accept every frame and the callback to
  return; a call that raises would end \<open>send\<close> at that point.
\<close>

record FileSender =
  "file" :: File
  onProgress :: bool

datatype sender_effect = Send FileMessage | Progress number | Timeout nat

text \<open>
  \<open>Math.ceil(this.file.size / CHUNK_SIZE)\<close>. The divisor is the non-zero constant,
  so the quotient is finite and its ceiling a non-negative integer.
\<close>

definition chunk_count :: "nat \<Rightarrow> nat" where
  "chunk_count n = nat \<lceil>round_double (real n / real CHUNK_SIZE)\<rceil>"

text \<open>The \<open>for\<close> loop of \<open>send\<close>, from the iteration with counter \<open>i\<close> on.\<close>

function send_loop :: "FileSender \<Rightarrow> nat \<Rightarrow> nat \<Rightarrow> sender_effect list" where
  "send_loop s total_chunks i =
     (if i < total_chunks then
        (let start = i * CHUNK_SIZE;
             finish = min (start + CHUNK_SIZE) (file_size (file s));
             arrayBuffer = file_slice (file s) start finish;
             chunkMessage = \<lparr>index = i, data = arrayBuffer\<rparr>;
             progress = percent (i + 1) total_chunks
         in [Send (Chunk chunkMessage)]
            @ (if FileSender.onProgress s then [Progress progress] else [])
            @ (if i mod 10 = 0 then [Timeout 1] else [])
            @ send_loop s total_chunks (i + 1))
      else [])"
  by pat_completeness auto
termination
  by (relation "measure (\<lambda>(s, total_chunks, i). total_chunks - i)") auto

declare send_loop.simps [simp del]

definition send :: "FileSender \<Rightarrow> sender_effect list" where
  "send s =
     (let total_chunks = chunk_count (file_size (file s));
          metadata = \<lparr>fileName = name (file s), fileType = type (file s),
                      fileSize = file_size (file s), totalChunks = total_chunks\<rparr>
      in [Send (Metadata metadata)] @ send_loop s total_chunks 0 @ [Send Complete])"

text \<open>The frames handed to the connection, and the values handed to \<open>onProgress\<close>.\<close>

fun sent_frames :: "sender_effect list \<Rightarrow> FileMessage list" where
  "sent_frames [] = []"
| "sent_frames (Send m # es) = m # sent_frames es"
| "sent_frames (e # es) = sent_frames es"

fun progress_calls :: "sender_effect list \<Rightarrow> number list" where
  "progress_calls [] = []"
| "progress_calls (Progress p # es) = p # progress_calls es"
| "progress_calls (e # es) = progress_calls es"

fun is_Chunk :: "FileMessage \<Rightarrow> bool" where
  "is_Chunk (Chunk c) = True"
| "is_Chunk m = False"

section \<open>FileReceiver\<close>

text \<open>
  The exceptions of the run: the \<open>TypeError\<close> of reading a property of \<open>null\<close> or
  \<open>undefined\<close>, the \<open>RangeError\<close> of \<open>new Array\<close>, and an \<open>Error\<close> with its message.
\<close>

datatype js_error = TypeError | RangeError | Error string

text \<open>
  An Array object: its \<open>length\<close> and its element properties; a position below
  \<open>length\<close> with no element is a hole. \<open>new Array(n)\<close> raises a \<open>RangeError\<close> unless
  \<open>n\<close> is a valid array length; an assignment at a valid array index at or beyond
  \<open>length\<close> extends the array, one at a larger key only adds a property.
\<close>

record js_array =
  array_length :: nat
  element :: "nat \<Rightarrow> ArrayBuffer option"

definition MAX_ARRAY_LENGTH :: nat where
  "MAX_ARRAY_LENGTH = 2 ^ 32 - 1"

definition empty_array :: js_array where
  "empty_array = \<lparr>array_length = 0, element = (\<lambda>i. None)\<rparr>"

definition new_Array :: "nat \<Rightarrow> js_error + js_array" where
  "new_Array n =
     (if n \<le> MAX_ARRAY_LENGTH then Inr \<lparr>array_length = n, element = (\<lambda>i. None)\<rparr>
      else Inl RangeError)"

definition array_put :: "js_array \<Rightarrow> nat \<Rightarrow> ArrayBuffer \<Rightarrow> js_array" where
  "array_put a i v =
     \<lparr>array_length = (if i < MAX_ARRAY_LENGTH then max (array_length a) (i + 1)
                       else array_length a),
      element = (element a)(i \<mapsto> v)\<rparr>"

text \<open>
  \<open>new Blob(parts, {type})\<close> concatenates the parts at positions \<open>0\<close> to
  \<open>length - 1\<close>; a hole reads as \<open>undefined\<close> and contributes the text "undefined".
  The type of the Blob is not the string given: a string with a character outside
  the range U+0020 to U+007E gives the empty type, any other string is converted to
  ASCII lower case.
\<close>

definition ascii_lowercase :: "char \<Rightarrow> char" where
  "ascii_lowercase c =
     (if 65 \<le> (of_char c :: nat) \<and> (of_char c :: nat) \<le> 90
      then char_of ((of_char c :: nat) + 32) else c)"

definition normalized_type :: "string \<Rightarrow> string" where
  "normalized_type t =
     (if list_all (\<lambda>c. 32 \<le> (of_char c :: nat) \<and> (of_char c :: nat) \<le> 126) t
      then map ascii_lowercase t else [])"

record Blob =
  blob_bytes :: ArrayBuffer
  blob_type :: string

definition blob_part :: "ArrayBuffer option \<Rightarrow> ArrayBuffer" where
  "blob_part p = (case p of Some d \<Rightarrow> d | None \<Rightarrow> map of_char ''undefined'')"

definition new_Blob :: "js_array \<Rightarrow> string \<Rightarrow> Blob" where
  "new_Blob parts t =
     \<lparr>blob_bytes = concat (map (\<lambda>i. blob_part (element parts i)) [0..<array_length parts]),
      blob_type = normalized_type t\<rparr>"

text \<open>
  The receiver's private fields and its four nullable callback fields (here: whether
  a callback is assigned).
\<close>

record FileReceiver =
  chunks :: js_array
  metadata :: "FileMetadata option"
  receivedChunks :: nat
  onStart :: bool
  onProgress :: bool
  onComplete :: bool
  onError :: bool

text \<open>The constructor; the caller then assigns the callbacks it wants.\<close>

definition new_FileReceiver :: FileReceiver where
  "new_FileReceiver =
     \<lparr>chunks = empty_array, metadata = None, receivedChunks = 0,
      onStart = False, onProgress = False, onComplete = False, onError = False\<rparr>"

text \<open>
  What the connection's \<open>data\<close> event delivers is of type \<open>unknown\<close>: \<open>null\<close> or
  \<open>undefined\<close>, whose property \<open>type\<close> cannot be read; a value whose \<open>type\<close> is none
  of the three tags; or a frame.
\<close>

datatype inbound = Nullish | Unrelated | Message FileMessage

datatype receiver_call =
  OnStart | OnProgress number | OnComplete Blob string string | OnError js_error

text \<open>
  A callback is code of the application: it returns, or it throws a value, which is
  an \<open>Error\<close> or anything else. The callbacks are given by the value each call
  throws, if any. \<open>call\<close> is the guarded call \<open>if (this.on\<dots>) this.on\<dots>(\<dots>)\<close>:
  the call made, if the field is assigned, and what it throws.
\<close>

datatype thrown = An_Error js_error | Not_An_Error

type_synonym callbacks = "receiver_call \<Rightarrow> thrown option"

definition call :: "callbacks \<Rightarrow> bool \<Rightarrow> receiver_call \<Rightarrow> receiver_call list \<times> thrown option"
  where
  "call env assigned c = (if assigned then ([c], env c) else ([], None))"

text \<open>
  The body of the \<open>try\<close> block: the receiver as the body leaves it, the callbacks it
  called, and the exception that ended it, if any. Reading \<open>type\<close> of \<open>null\<close> or
  \<open>undefined\<close> raises a \<open>TypeError\<close>, \<open>new Array\<close> may raise a \<open>RangeError\<close>, and
  each callback may throw; it is called after the fields have been assigned, except
  \<open>onComplete\<close>, which is called before they are reset.
\<close>

fun try_block ::
  "callbacks \<Rightarrow> FileReceiver \<Rightarrow> inbound \<Rightarrow> FileReceiver \<times> receiver_call list \<times> thrown option"
  where
  "try_block env r Nullish = (r, [], Some (An_Error TypeError))"
| "try_block env r Unrelated = (r, [], None)"
| "try_block env r (Message (Metadata message)) =
     (let r1 = r\<lparr>metadata := Some message\<rparr>
      in case new_Array (totalChunks message) of
           Inl err \<Rightarrow> (r1, [], Some (An_Error err))
         | Inr a \<Rightarrow>
             (let r2 = r1\<lparr>chunks := a, receivedChunks := 0\<rparr>;
                  (calls, exn) = call env (onStart r2) OnStart
              in (r2, calls, exn)))"
| "try_block env r (Message (Chunk message)) =
     (case metadata r of
        None \<Rightarrow> (r, [], None)
      | Some m \<Rightarrow>
          (let r1 = r\<lparr>chunks := array_put (chunks r) (index message) (data message),
                       receivedChunks := receivedChunks r + 1\<rparr>;
               progress = percent (receivedChunks r1) (totalChunks m);
               (calls, exn) = call env (onProgress r1) (OnProgress progress)
           in (r1, calls, exn)))"
| "try_block env r (Message Complete) =
     (case metadata r of
        None \<Rightarrow> (r, [], None)
      | Some m \<Rightarrow>
          (let blob = new_Blob (chunks r) (fileType m);
               (calls, exn) = call env (onComplete r) (OnComplete blob (fileName m) (fileType m))
           in case exn of
                Some t \<Rightarrow> (r, calls, Some t)
              | None \<Rightarrow>
                  (r\<lparr>chunks := empty_array, metadata := None, receivedChunks := 0\<rparr>,
                   calls, None)))"

text \<open>\<open>err instanceof Error ? err : new Error('Unknown error')\<close>.\<close>

fun caught :: "thrown \<Rightarrow> js_error" where
  "caught (An_Error err) = err"
| "caught Not_An_Error = Error ''Unknown error''"

text \<open>
  The listener registered by \<open>setupListener\<close>: the \<open>try\<close> block and its \<open>catch\<close>.
  The third component is the exception that leaves the listener, which only
  \<open>onError\<close> itself can throw; the listener stays registered in any case.
\<close>

definition on_data ::
  "callbacks \<Rightarrow> FileReceiver \<Rightarrow> inbound \<Rightarrow> FileReceiver \<times> receiver_call list \<times> thrown option"
  where
  "on_data env r d =
     (case try_block env r d of
        (r', calls, None) \<Rightarrow> (r', calls, None)
      | (r', calls, Some t) \<Rightarrow>
          (let (calls', exn) = call env (onError r') (OnError (caught t))
           in (r', calls @ calls', exn)))"

text \<open>
  The listener run on the \<open>data\<close> events of the connection, in order. An event
  comes with what the callbacks do when called during it, since a callback need not
  do the same at every call.
\<close>

fun receive_with ::
  "FileReceiver \<Rightarrow> (callbacks \<times> inbound) list \<Rightarrow> FileReceiver \<times> receiver_call list"
  where
  "receive_with r [] = (r, [])"
| "receive_with r ((env, d) # events) =
     (let (r1, calls1, exn) = on_data env r d;
          (r2, calls2) = receive_with r1 events
      in (r2, calls1 @ calls2))"

text \<open>
  The normal run, in which every callback returns: the listener on one event, and
  on the events of the connection in order.
\<close>

definition returning :: callbacks where
  "returning = (\<lambda>c. None)"

definition listener :: "FileReceiver \<Rightarrow> inbound \<Rightarrow> FileReceiver \<times> receiver_call list" where
  "listener r d = (let (r', calls, exn) = on_data returning r d in (r', calls))"

fun receive :: "FileReceiver \<Rightarrow> inbound list \<Rightarrow> FileReceiver \<times> receiver_call list" where
  "receive r [] = (r, [])"
| "receive r (d # ds) =
     (let (r1, calls1) = listener r d;
          (r2, calls2) = receive r1 ds
      in (r2, calls1 @ calls2))"

fun progress_values :: "receiver_call list \<Rightarrow> number list" where
  "progress_values [] = []"
| "progress_values (OnProgress p # cs) = p # progress_values cs"
| "progress_values (c # cs) = progress_values cs"

text \<open>The sizes of the Blobs handed to \<open>onComplete\<close>.\<close>

fun completed_sizes :: "receiver_call list \<Rightarrow> nat list" where
  "completed_sizes [] = []"
| "completed_sizes (OnComplete blob n t # cs) = length (blob_bytes blob) # completed_sizes cs"
| "completed_sizes (c # cs) = completed_sizes cs"

fun error_calls :: "receiver_call list \<Rightarrow> js_error list" where
  "error_calls [] = []"
| "error_calls (OnError e # cs) = e # error_calls cs"
| "error_calls (c # cs) = error_calls cs"

section \<open>The receiver as the application sets it up, and sample inputs\<close>

text \<open>
  \<open>App\<close> constructs the receiver and assigns all four callbacks before any frame
  can arrive; it constructs a sender per file and assigns \<open>onProgress\<close> before
  calling \<open>send\<close>.
\<close>

definition app_receiver :: FileReceiver where
  "app_receiver =
     new_FileReceiver\<lparr>onStart := True, onProgress := True, onComplete := True, onError := True\<rparr>"

definition app_sender :: "File \<Rightarrow> FileSender" where
  "app_sender f = \<lparr>file = f, onProgress = True\<rparr>"

definition note_file :: File where
  "note_file = \<lparr>name = ''a.txt'', type = ''text/plain'', content = [72, 105]\<rparr>"

definition note_metadata :: FileMetadata where
  "note_metadata =
     \<lparr>fileName = ''a.txt'', fileType = ''text/plain'', fileSize = 2, totalChunks = 1\<rparr>"

definition two_chunk_file :: File where
  "two_chunk_file =
     \<lparr>name = ''b.bin'', type = ''application/octet-stream'', content = replicate 16385 7\<rparr>"

definition empty_file :: File where
  "empty_file = \<lparr>name = ''empty.txt'', type = ''text/plain'', content = []\<rparr>"

definition pair_metadata :: FileMetadata where
  "pair_metadata =
     \<lparr>fileName = ''a.txt'', fileType = ''text/plain'', fileSize = 2, totalChunks = 2\<rparr>"

definition three_chunk_file :: File where
  "three_chunk_file =
     \<lparr>name = ''c.bin'', type = ''application/octet-stream'', content = replicate 32769 7\<rparr>"

definition overstated_metadata :: FileMetadata where
  "overstated_metadata =
     \<lparr>fileName = ''a.txt'', fileType = ''text/plain'', fileSize = 5, totalChunks = 1\<rparr>"

definition titled_metadata :: FileMetadata where
  "titled_metadata =
     \<lparr>fileName = ''a.txt'', fileType = ''Text/Plain'', fileSize = 2, totalChunks = 1\<rparr>"

text \<open>Callbacks of which \<open>onProgress\<close> throws a string, and the others return.\<close>

definition progress_throws :: callbacks where
  "progress_throws = (\<lambda>c. case c of OnProgress p \<Rightarrow> Some Not_An_Error | _ \<Rightarrow> None)"

definition huge_metadata :: FileMetadata where
  "huge_metadata =
     \<lparr>fileName = ''huge.bin'', fileType = ''application/octet-stream'',
      fileSize = 2 ^ 46, totalChunks = 2 ^ 32\<rparr>"

section \<open>Properties of the rounding\<close>

subsection \<open>The binary exponent\<close>

lemma log2floor_bounds:
  "0 < n \<Longrightarrow> 2 ^ log2floor n \<le> n \<and> n < 2 ^ Suc (log2floor n)"
proof (induction n rule: log2floor.induct)
  case (1 n)
  show ?case
  proof (cases "n < 2")
    case True
    with "1.prems" have "n = 1" by simp
    then show ?thesis by (simp add: log2floor.simps)
  next
    case False
    then have pos: "0 < n div 2" by simp
    from "1.IH" [OF False pos]
    have lo: "2 ^ log2floor (n div 2) \<le> n div 2"
      and hi: "n div 2 < 2 ^ Suc (log2floor (n div 2))" by simp_all
    have eq: "log2floor n = Suc (log2floor (n div 2))"
      using False by (simp add: log2floor.simps)
    from lo have "2 * 2 ^ log2floor (n div 2) \<le> n" by linarith
    moreover from hi have "n < 2 * 2 ^ Suc (log2floor (n div 2))" by linarith
    ultimately show ?thesis by (simp add: eq)
  qed
qed

lemma binade_bounds:
  assumes "0 < x"
  shows "2 powi binade x \<le> x" and "x < 2 powi (binade x + 1)"
proof -
  have "2 powi binade x \<le> x \<and> x < 2 powi (binade x + 1)"
  proof (cases "1 \<le> x")
    case True
    define n where "n = nat \<lfloor>x\<rfloor>"
    have npos: "0 < n" using True by (simp add: n_def)
    have nle: "real n \<le> x" and xlt: "x < real n + 1"
      using True by (simp_all add: n_def)
    from log2floor_bounds [OF npos]
    have lo: "2 ^ log2floor n \<le> n" and hi: "n < 2 ^ Suc (log2floor n)" by simp_all
    have b: "binade x = int (log2floor n)" using True by (simp add: binade_def n_def)
    from lo have "(2::real) ^ log2floor n \<le> real n"
      by (metis of_nat_le_iff of_nat_numeral of_nat_power)
    then have A: "(2::real) ^ log2floor n \<le> x" using nle by linarith
    from hi have "n + 1 \<le> 2 ^ Suc (log2floor n)" by simp
    then have "real (n + 1) \<le> (2::real) ^ Suc (log2floor n)"
      by (metis of_nat_le_iff of_nat_numeral of_nat_power)
    then have B: "x < (2::real) ^ Suc (log2floor n)" using xlt by simp
    have "int (log2floor n) + 1 = int (Suc (log2floor n))" by simp
    then show ?thesis using A B unfolding b by (metis power_int_of_nat)
  next
    case False
    define y where "y = 1 / x"
    define n where "n = nat \<lceil>y\<rceil>"
    define c where "c = Suc (log2floor (n - 1))"
    have y1: "1 < y" using False assms by (simp add: y_def)
    have n2: "2 \<le> n" using y1 by (simp add: n_def) linarith
    have yle: "y \<le> real n" using y1 by (simp add: n_def)
    have ygt: "real n - 1 < y" using y1 by (simp add: n_def) linarith
    have npos: "0 < n - 1" using n2 by simp
    from log2floor_bounds [OF npos]
    have lo: "2 ^ log2floor (n - 1) \<le> n - 1" and hi: "n - 1 < 2 ^ c"
      by (simp_all add: c_def)
    have b: "binade x = - int c" using False by (simp add: binade_def n_def y_def c_def)
    from hi have "n \<le> 2 ^ c" by simp
    then have "real n \<le> (2::real) ^ c"
      by (metis of_nat_le_iff of_nat_numeral of_nat_power)
    then have "y \<le> 2 ^ c" using yle by linarith
    then have "1 / x \<le> 2 ^ c" by (simp add: y_def)
    then have "1 \<le> 2 ^ c * x" using assms by (simp add: field_simps)
    then have A: "2 powi (- int c) \<le> x"
      by (simp add: power_int_minus field_simps)
    from lo have "real (2 ^ log2floor (n - 1)) \<le> real (n - 1)"
      using of_nat_le_iff by blast
    then have "(2::real) ^ log2floor (n - 1) \<le> real n - 1" using n2 by simp
    then have "(2::real) ^ log2floor (n - 1) < y" using ygt by linarith
    then have "2 ^ log2floor (n - 1) < 1 / x" by (simp add: y_def)
    then have lt: "x * 2 ^ log2floor (n - 1) < 1" using assms by (simp add: field_simps)
    have "- int c + 1 = - int (log2floor (n - 1))" by (simp add: c_def)
    then have "2 powi (- int c + 1) = (2::real) powi (- int (log2floor (n - 1)))"
      by simp
    also have "\<dots> = 1 / 2 ^ log2floor (n - 1)"
      by (simp add: power_int_minus field_simps del: of_nat_Suc)
    finally have eq: "2 powi (- int c + 1) = (1::real) / 2 ^ log2floor (n - 1)" .
    have "x < 1 / 2 ^ log2floor (n - 1)" using lt by (simp add: pos_less_divide_eq)
    then have B: "x < 2 powi (- int c + 1)" by (simp only: eq)
    show ?thesis using A B unfolding b by simp
  qed
  then show "2 powi binade x \<le> x" and "x < 2 powi (binade x + 1)" by simp_all
qed

lemma binade_mono:
  assumes "0 < x" and "x \<le> y"
  shows "binade x \<le> binade y"
proof (rule ccontr)
  assume "\<not> binade x \<le> binade y"
  then have "binade y + 1 \<le> binade x" by simp
  then have "(2::real) powi (binade y + 1) \<le> 2 powi binade x"
    by (simp add: power_int_increasing)
  moreover have "y < 2 powi (binade y + 1)" using assms by (intro binade_bounds) simp
  moreover have "2 powi binade x \<le> x" using assms by (intro binade_bounds)
  ultimately show False using assms(2) by linarith
qed

subsection \<open>Rounding to an integer\<close>

lemma ties_to_even_lower: "\<lfloor>x\<rfloor> \<le> ties_to_even x"
  by (simp add: ties_to_even_def Let_def)

lemma ties_to_even_upper: "ties_to_even x \<le> \<lfloor>x\<rfloor> + 1"
  by (simp add: ties_to_even_def Let_def)

lemma ties_to_even_of_int [simp]: "ties_to_even (of_int k) = k"
  by (simp add: ties_to_even_def Let_def)

lemma ties_to_even_mono:
  assumes "x \<le> y"
  shows "ties_to_even x \<le> ties_to_even y"
proof (cases "\<lfloor>x\<rfloor> = \<lfloor>y\<rfloor>")
  case True
  have "x - of_int \<lfloor>x\<rfloor> \<le> y - of_int \<lfloor>y\<rfloor>" using assms True by simp
  then show ?thesis
    unfolding ties_to_even_def Let_def True by auto
next
  case False
  have "\<lfloor>x\<rfloor> \<le> \<lfloor>y\<rfloor>" using assms by (rule floor_mono)
  with False have "\<lfloor>x\<rfloor> + 1 \<le> \<lfloor>y\<rfloor>" by simp
  then show ?thesis
    using ties_to_even_upper [of x] ties_to_even_lower [of y] by linarith
qed

subsection \<open>Rounding to binary64 is monotone\<close>

text \<open>
  Within one binade the significand is rounded monotonically; across binades the
  rounded value stays between the powers of two that bound the binade.
\<close>

lemma round_double_pos:
  "0 < x \<Longrightarrow>
   round_double x = of_int (ties_to_even (x / 2 powi (binade x - 52))) * 2 powi (binade x - 52)"
  by (simp add: round_double_def Let_def)

lemma significand_bounds:
  assumes "0 < x"
  shows "2 ^ 52 \<le> x / 2 powi (binade x - 52)" and "x / 2 powi (binade x - 52) < 2 ^ 53"
proof -
  define p where "p = (2::real) powi binade x"
  define q where "q = x / p"
  have p: "0 < p" by (simp add: p_def)
  have u: "(2::real) powi (binade x - 52) = p / 2 ^ 52"
    by (simp add: power_int_diff p_def)
  have eq: "x / 2 powi (binade x - 52) = q * 2 ^ 52"
    unfolding u q_def by simp
  have "p \<le> x" using binade_bounds(1) [OF assms] by (simp add: p_def)
  then have q1: "1 \<le> q" using p by (simp add: q_def pos_le_divide_eq)
  have "x < p * 2" using binade_bounds(2) [OF assms]
    by (simp add: power_int_add p_def)
  then have q2: "q < 2" using p by (simp add: q_def pos_divide_less_eq mult.commute)
  from q1 have "1 * 2 ^ 52 \<le> q * 2 ^ 52" by (intro mult_right_mono) simp_all
  then show "2 ^ 52 \<le> x / 2 powi (binade x - 52)" by (simp only: eq mult_1)
  from q2 have "q * 2 ^ 52 < 2 * 2 ^ 52" by (intro mult_strict_right_mono) simp_all
  then show "x / 2 powi (binade x - 52) < 2 ^ 53" by (simp only: eq) simp
qed

lemma round_double_bounds:
  assumes "0 < x"
  shows "2 powi binade x \<le> round_double x" and "round_double x \<le> 2 powi (binade x + 1)"
proof -
  let ?u = "(2::real) powi (binade x - 52)"
  let ?m = "ties_to_even (x / ?u)"
  have upos: "0 < ?u" by simp
  have "ties_to_even (of_int (2 ^ 52)) \<le> ?m"
    using significand_bounds(1) [OF assms] by (intro ties_to_even_mono) simp
  then have lo: "2 ^ 52 \<le> ?m" by (simp only: ties_to_even_of_int)
  have "?m \<le> ties_to_even (of_int (2 ^ 53))"
    using significand_bounds(2) [OF assms] by (intro ties_to_even_mono) simp
  then have hi: "?m \<le> 2 ^ 53" by (simp only: ties_to_even_of_int)
  have e1: "(2::real) powi binade x = 2 ^ 52 * ?u" by (simp add: power_int_diff)
  have e2: "(2::real) powi (binade x + 1) = 2 ^ 53 * ?u"
    by (simp add: power_int_diff power_int_add)
  from lo have "(2::real) ^ 52 \<le> of_int ?m"
    by (metis of_int_le_iff of_int_numeral of_int_power)
  then have "2 ^ 52 * ?u \<le> of_int ?m * ?u" using upos by simp
  then show "2 powi binade x \<le> round_double x"
    by (simp only: e1 round_double_pos [OF assms])
  from hi have "of_int ?m \<le> (2::real) ^ 53"
    by (metis of_int_le_iff of_int_numeral of_int_power)
  then have "of_int ?m * ?u \<le> 2 ^ 53 * ?u" using upos by simp
  then show "round_double x \<le> 2 powi (binade x + 1)"
    by (simp only: e2 round_double_pos [OF assms])
qed

lemma round_double_mono_pos:
  assumes "0 < x" and "x \<le> y"
  shows "round_double x \<le> round_double y"
proof (cases "binade x = binade y")
  case True
  have ypos: "0 < y" using assms by simp
  let ?u = "(2::real) powi (binade y - 52)"
  have "x / ?u \<le> y / ?u" using assms(2) by (simp add: divide_right_mono)
  then have "ties_to_even (x / ?u) \<le> ties_to_even (y / ?u)" by (rule ties_to_even_mono)
  then have "(of_int (ties_to_even (x / ?u)) :: real) * ?u \<le> of_int (ties_to_even (y / ?u)) * ?u"
    by simp
  then show ?thesis
    by (simp only: round_double_pos [OF assms(1)] round_double_pos [OF ypos] True)
next
  case False
  have ypos: "0 < y" using assms by simp
  have "binade x \<le> binade y" using assms by (rule binade_mono)
  with False have "binade x + 1 \<le> binade y" by simp
  then have "(2::real) powi (binade x + 1) \<le> 2 powi binade y"
    by (intro power_int_increasing) simp_all
  then show ?thesis
    using round_double_bounds(2) [OF assms(1)] round_double_bounds(1) [OF ypos] by linarith
qed

lemma round_double_zero [simp]: "round_double 0 = 0"
  by (simp add: round_double_def)

lemma round_double_nonneg: "0 \<le> x \<Longrightarrow> 0 \<le> round_double x"
proof (cases "x = 0")
  case False
  assume "0 \<le> x"
  with False have pos: "0 < x" by simp
  have "(0::real) \<le> 2 powi binade x" by simp
  then show ?thesis using round_double_bounds(1) [OF pos] by linarith
qed simp

lemma round_double_mono:
  assumes "0 \<le> x" and "x \<le> y"
  shows "round_double x \<le> round_double y"
proof (cases "x = 0")
  case True
  then show ?thesis using assms round_double_nonneg [of y] by simp
next
  case False
  with assms have "0 < x" by simp
  then show ?thesis using assms(2) by (rule round_double_mono_pos)
qed

subsection \<open>Values that are not rounded\<close>

text \<open>
  A value \<open>m * 2\<^sup>j\<close> with \<open>0 < m < 2\<^sup>5\<^sup>3\<close> is a binary64 value: every natural number
  up to \<open>MAX_SAFE_INTEGER\<close>, and its quotient by a power of two.
\<close>

lemma round_double_exact:
  assumes m: "0 < m" "m < 2 ^ 53"
  shows "round_double (of_int m * 2 powi j) = of_int m * 2 powi j"
proof -
  let ?x = "of_int m * (2::real) powi j"
  have xpos: "0 < ?x" using m(1) by simp
  let ?e = "binade ?x"
  have "2 powi ?e \<le> ?x" using binade_bounds(1) [OF xpos] .
  moreover have "?x < 2 ^ 53 * 2 powi j"
  proof -
    have "(of_int m :: real) < 2 ^ 53" using m(2)
      by (metis of_int_less_iff of_int_numeral of_int_power)
    then show ?thesis by simp
  qed
  moreover have "(2::real) powi (j + 53) = 2 ^ 53 * 2 powi j"
    by (simp add: power_int_add)
  ultimately have "(2::real) powi ?e < 2 powi (j + 53)"
    by linarith
  have lt: "?e < j + 53"
  proof (rule ccontr)
    assume "\<not> ?e < j + 53"
    then have "(2::real) powi (j + 53) \<le> 2 powi ?e"
      by (intro power_int_increasing) simp_all
    with \<open>(2::real) powi ?e < 2 powi (j + 53)\<close> show False by simp
  qed
  define k where "k = nat (j - (?e - 52))"
  define u where "u = (2::real) powi (?e - 52)"
  have upos: "0 < u" by (simp add: u_def)
  have "j = (?e - 52) + int k" using lt by (simp add: k_def)
  then have "(2::real) powi j = 2 powi ((?e - 52) + int k)" by simp
  also have "\<dots> = u * 2 ^ k"
    unfolding u_def by (subst power_int_add) simp_all
  finally have pj: "(2::real) powi j = u * 2 ^ k" .
  have "?x / u = of_int m * (u * 2 ^ k) / u" by (simp only: pj)
  also have "\<dots> = of_int (m * 2 ^ k)" using upos by simp
  finally have "ties_to_even (?x / u) = m * 2 ^ k"
    by (simp only: ties_to_even_of_int)
  then have "round_double ?x = of_int (m * 2 ^ k) * u"
    unfolding u_def by (simp only: round_double_pos [OF xpos])
  also have "\<dots> = of_int m * (u * 2 ^ k)" by simp
  also have "\<dots> = ?x" by (simp only: pj)
  finally show ?thesis .
qed

lemma round_double_of_nat:
  assumes "n < 2 ^ 53"
  shows "round_double (real n) = real n"
proof (cases "n = 0")
  case False
  have "int n < 2 ^ 53" using assms by (metis of_nat_less_iff of_nat_numeral of_nat_power)
  with False have "round_double (of_int (int n) * 2 powi 0) = of_int (int n) * 2 powi 0"
    by (intro round_double_exact) simp_all
  then show ?thesis by simp
qed simp

lemma round_double_div_pow2:
  assumes "n < 2 ^ 53"
  shows "round_double (real n / 2 ^ k) = real n / 2 ^ k"
proof (cases "n = 0")
  case False
  have "int n < 2 ^ 53" using assms by (metis of_nat_less_iff of_nat_numeral of_nat_power)
  with False have "round_double (of_int (int n) * 2 powi (- int k)) = of_int (int n) * 2 powi (- int k)"
    by (intro round_double_exact) simp_all
  then show ?thesis by (simp add: power_int_minus field_simps)
qed simp

subsection \<open>The progress percentage\<close>

lemma round_double_one: "round_double 1 = 1"
  using round_double_of_nat [of 1] by simp

lemma round_double_hundred: "round_double 100 = 100"
  using round_double_of_nat [of 100] by simp

lemma percent_finite:
  "0 < b \<Longrightarrow>
   percent a b = Finite (of_int \<lfloor>round_double (round_double (real a / real b) * 100) + 1 / 2\<rfloor>)"
  by (simp add: percent_def js_div_def)

lemma percent_zero_divisor: "0 < a \<Longrightarrow> percent a 0 = PosInfinity"
  by (simp add: percent_def js_div_def)

lemma scaled_quotient_mono:
  assumes "0 < b" and "a \<le> a'"
  shows "round_double (round_double (real a / real b) * 100)
       \<le> round_double (round_double (real a' / real b) * 100)"
proof -
  have q: "real a / real b \<le> real a' / real b"
    using assms by (simp add: divide_right_mono)
  have "0 \<le> real a / real b" by simp
  then have r: "round_double (real a / real b) \<le> round_double (real a' / real b)"
    using q by (rule round_double_mono)
  have "0 \<le> round_double (real a / real b)" by (rule round_double_nonneg) simp
  then have "0 \<le> round_double (real a / real b) * 100" by simp
  moreover have "round_double (real a / real b) * 100 \<le> round_double (real a' / real b) * 100"
    using r by simp
  ultimately show ?thesis by (rule round_double_mono)
qed

lemma percent_mono:
  assumes "0 < a" and "a \<le> a'"
  shows "num_le (percent a b) (percent a' b)"
proof (cases "b = 0")
  case True
  then show ?thesis using assms by (simp add: percent_zero_divisor)
next
  case False
  then have b: "0 < b" by simp
  have "\<lfloor>round_double (round_double (real a / real b) * 100) + 1 / 2\<rfloor>
      \<le> \<lfloor>round_double (round_double (real a' / real b) * 100) + 1 / 2\<rfloor>"
    using scaled_quotient_mono [OF b assms(2)] by (intro floor_mono) simp
  then show ?thesis by (simp add: percent_finite [OF b])
qed

lemma percent_full: "0 < n \<Longrightarrow> percent n n = Finite 100"
  by (simp add: percent_finite round_double_one round_double_hundred)

lemma percent_range:
  assumes "0 < b" and "a \<le> b"
  shows "\<exists>p. percent a b = Finite (of_int p) \<and> 0 \<le> p \<and> p \<le> 100"
proof -
  let ?v = "round_double (round_double (real a / real b) * 100)"
  have "?v \<le> round_double (round_double (real b / real b) * 100)"
    using assms by (rule scaled_quotient_mono)
  then have hi: "?v \<le> 100" using assms(1) by (simp add: round_double_one round_double_hundred)
  have "0 \<le> round_double (real a / real b)" by (rule round_double_nonneg) simp
  then have "0 \<le> round_double (real a / real b) * 100" by simp
  then have lo: "0 \<le> ?v" by (rule round_double_nonneg)
  have "0 \<le> \<lfloor>?v + 1 / 2\<rfloor>" using lo by simp
  moreover have "\<lfloor>?v + 1 / 2\<rfloor> \<le> 100" using hi by (simp add: floor_le_iff)
  ultimately show ?thesis using percent_finite [OF assms(1)] by blast
qed

subsection \<open>The number of chunks\<close>

text \<open>
  \<open>CHUNK_SIZE\<close> is a power of two, so the quotient of a safe integer by it is not
  rounded and \<open>Math.ceil\<close> gives the exact ceiling.
\<close>

lemma nat_ceiling_divide:
  assumes "0 < c"
  shows "nat \<lceil>real n / real c\<rceil> = (n + c - 1) div c"
proof -
  have "\<lceil>real n / real c\<rceil> = \<lceil>of_int (int n) / (of_int (int c) :: real)\<rceil>" by simp
  also have "\<dots> = - (- int n div int c)" by (rule ceiling_divide_eq_div)
  finally have c: "\<lceil>real n / real c\<rceil> = - (- int n div int c)" .
  have "- (- int n div int c) = (int n + int c - 1) div int c"
  proof -
    have cpos: "0 < int c" using assms by simp
    define Q where "Q = (int n + int c - 1) div int c"
    define R where "R = (int n + int c - 1) mod int c"
    have QR: "int n + int c - 1 = int c * Q + R"
      by (simp add: Q_def R_def)
    have "- int n = int c * (- Q) + (int c - 1 - R)"
      using QR by (simp add: algebra_simps)
    moreover have "0 \<le> int c - 1 - R"
      using pos_mod_bound [OF cpos, of "int n + int c - 1"] unfolding R_def by linarith
    moreover have "int c - 1 - R < int c"
      using pos_mod_sign [OF cpos, of "int n + int c - 1"] unfolding R_def by linarith
    ultimately have "- int n div int c = - Q"
      by (rule int_div_pos_eq)
    then have "- int n div int c = - ((int n + int c - 1) div int c)"
      by (simp add: Q_def)
    then show ?thesis by simp
  qed
  also have "\<dots> = int ((n + c - 1) div c)"
    using assms by (simp add: zdiv_int)
  finally show ?thesis using c by simp
qed

lemma CHUNK_SIZE_pow2: "real CHUNK_SIZE = 2 ^ 14"
  by (simp add: CHUNK_SIZE_def)

lemma chunk_count_exact:
  assumes "n \<le> MAX_SAFE_INTEGER"
  shows "chunk_count n = nat \<lceil>real n / real CHUNK_SIZE\<rceil>"
proof -
  have "n < 2 ^ 53" using assms by (simp add: MAX_SAFE_INTEGER_def)
  then have "round_double (real n / 2 ^ 14) = real n / 2 ^ 14"
    by (rule round_double_div_pow2)
  then show ?thesis by (simp only: chunk_count_def CHUNK_SIZE_pow2)
qed

lemma chunk_count_pos:
  assumes "0 < n"
  shows "0 < chunk_count n"
proof -
  have pos: "0 < real n / real CHUNK_SIZE" using assms by (simp add: CHUNK_SIZE_def)
  have "(0::real) < 2 powi binade (real n / real CHUNK_SIZE)" by simp
  then have "0 < round_double (real n / real CHUNK_SIZE)"
    using round_double_bounds(1) [OF pos] by linarith
  then show ?thesis by (simp add: chunk_count_def)
qed

lemma chunk_count_div:
  assumes "n \<le> MAX_SAFE_INTEGER"
  shows "chunk_count n = (n + CHUNK_SIZE - 1) div CHUNK_SIZE"
  using chunk_count_exact [OF assms] nat_ceiling_divide [of CHUNK_SIZE n]
  by (simp add: CHUNK_SIZE_def)

subsection \<open>Evaluation on given numbers\<close>

text \<open>
  The definitions above compute: the binary64 value nearest to \<open>1 / 10\<close> is
  \<open>3602879701896397 / 2\<^sup>5\<^sup>5\<close>. The quotient \<open>29 / 200\<close> rounds to a
  binary64 value below \<open>0.145\<close> and its product with 100 to one below \<open>14.5\<close>, so
  the progress reported for 29 chunks of 200 is 14, where exact arithmetic gives
  \<open>14.5\<close> and 15.
\<close>

lemmas number_eval =
  percent_def js_div_def round_double_def binade_def ties_to_even_def log2floor.simps Let_def

lemma round_double_tenth: "round_double (1 / 10) = 3602879701896397 / 2 ^ 55"
  by (simp add: number_eval)

lemma percent_29_of_200: "percent 29 200 = Finite 14"
  by (simp add: number_eval)

lemma exact_29_of_200: "\<lfloor>(29 / 200 :: real) * 100 + 1 / 2\<rfloor> = 15"
  by simp

subsection \<open>The error of the rounding\<close>

lemma ties_to_even_error: "\<bar>of_int (ties_to_even x) - x\<bar> \<le> 1 / 2"
proof -
  have "of_int \<lfloor>x\<rfloor> \<le> x" and "x < of_int \<lfloor>x\<rfloor> + 1" by linarith+
  then show ?thesis
    by (auto simp add: ties_to_even_def Let_def abs_le_iff)
qed

lemma round_double_error:
  assumes "0 < x"
  shows "\<bar>round_double x - x\<bar> \<le> 2 powi (binade x - 53)"
proof -
  let ?u = "(2::real) powi (binade x - 52)"
  have upos: "0 < ?u" by simp
  have half: "(2::real) powi (binade x - 53) = ?u / 2"
    by (simp add: power_int_diff)
  have "round_double x - x = (of_int (ties_to_even (x / ?u)) - x / ?u) * ?u"
    using upos by (simp add: round_double_pos [OF assms] algebra_simps)
  then have "\<bar>round_double x - x\<bar> = \<bar>of_int (ties_to_even (x / ?u)) - x / ?u\<bar> * ?u"
    using upos by (simp add: abs_mult)
  also have "\<dots> \<le> 1 / 2 * ?u"
    using ties_to_even_error [of "x / ?u"] upos by (intro mult_right_mono) simp_all
  finally show ?thesis by (simp add: half)
qed

lemma binade_less:
  assumes "0 < x" and "x < 2 powi k"
  shows "binade x < k"
proof (rule ccontr)
  assume "\<not> binade x < k"
  then have "k \<le> binade x" by simp
  then have "(2::real) powi k \<le> 2 powi binade x" by (intro power_int_increasing) simp_all
  with binade_bounds(1) [OF assms(1)] assms(2) show False by simp
qed

lemma round_double_error_below:
  assumes "0 < x" and "x < 2 powi k"
  shows "\<bar>round_double x - x\<bar> \<le> 2 powi (k - 54)"
proof -
  have "binade x - 53 \<le> k - 54" using binade_less [OF assms] by simp
  then have "(2::real) powi (binade x - 53) \<le> 2 powi (k - 54)"
    by (intro power_int_increasing) simp_all
  with round_double_error [OF assms(1)] show ?thesis by simp
qed

text \<open>
  The value reported for \<open>a\<close> of \<open>b\<close> chunks is an integer between 0 and 100, and it
  is the integer nearest to the exact percentage \<open>100 a / b\<close>, up to the error of the
  two roundings.
\<close>

lemma percent_nearest:
  assumes "0 < a" and "a \<le> b"
  shows "\<exists>k. percent a b = Finite (of_int k) \<and> 0 \<le> k \<and> k \<le> 100
             \<and> \<bar>of_int k - 100 * real a / real b\<bar> \<le> 1 / 2 + 1 / 2 ^ 45"
proof -
  have b: "0 < b" using assms by simp
  let ?x = "real a / real b"
  let ?q = "round_double ?x"
  let ?y = "?q * 100"
  let ?v = "round_double ?y"
  let ?k = "\<lfloor>?v + 1 / 2\<rfloor>"
  have x0: "0 < ?x" using assms b by simp
  have x1: "?x \<le> 1" using assms b by simp
  have "?x < 2 powi 1" using x1 by simp
  from round_double_error_below [OF x0 this]
  have "\<bar>?q - ?x\<bar> \<le> 2 powi (1 - 54)" .
  also have "(2::real) powi (1 - 54) = 1 / 2 ^ 53"
    by (simp add: power_int_def power_divide)
  finally have ex: "\<bar>?q - ?x\<bar> \<le> 1 / 2 ^ 53" .
  have "(0::real) < 2 powi binade ?x" by simp
  with round_double_bounds(1) [OF x0] have q0: "0 < ?q" by linarith
  have "?q \<le> round_double 1" using x0 x1 by (intro round_double_mono) simp_all
  then have q1: "?q \<le> 1" by (simp only: round_double_one)
  have y0: "0 < ?y" using q0 by simp
  have "?y < 2 powi 7" using q1 by simp
  from round_double_error_below [OF y0 this]
  have "\<bar>?v - ?y\<bar> \<le> 2 powi (7 - 54)" .
  also have "(2::real) powi (7 - 54) = 1 / 2 ^ 47"
    by (simp add: power_int_def power_divide)
  finally have ey: "\<bar>?v - ?y\<bar> \<le> 1 / 2 ^ 47" .
  have ek: "\<bar>of_int ?k - ?v\<bar> \<le> 1 / 2" by linarith
  have sum: "\<bar>K - 100 * X\<bar> \<le> 1 / 2 + 1 / 2 ^ 45"
    if "\<bar>K - V\<bar> \<le> 1 / 2" and "\<bar>V - Q * 100\<bar> \<le> 1 / 2 ^ 47" and "\<bar>Q - X\<bar> \<le> 1 / 2 ^ 53"
    for K V Q X :: real
    using that unfolding abs_le_iff by (simp; linarith)
  have "\<bar>of_int ?k - 100 * ?x\<bar> \<le> 1 / 2 + 1 / 2 ^ 45"
    using ek ey ex by (rule sum)
  then have near: "\<bar>of_int ?k - 100 * real a / real b\<bar> \<le> 1 / 2 + 1 / 2 ^ 45"
    by simp
  from percent_range [OF b assms(2)] obtain p where
    p: "percent a b = Finite (of_int p)" "0 \<le> p" "p \<le> 100" by blast
  have "percent a b = Finite (of_int ?k)" by (rule percent_finite [OF b])
  with p have "?k = p" by simp
  with p near percent_finite [OF b, of a] show ?thesis by blast
qed

lemma percent_thirds: "percent (Suc 0) 3 = Finite 33" "percent (Suc (Suc 0)) 3 = Finite 67"
  "percent 3 3 = Finite 100"
  by (simp_all add: number_eval)

section \<open>Properties of the sender\<close>

subsection \<open>The effects of the loop\<close>

lemma sent_frames_append: "sent_frames (xs @ ys) = sent_frames xs @ sent_frames ys"
  by (induction xs rule: sent_frames.induct) simp_all

lemma progress_calls_append: "progress_calls (xs @ ys) = progress_calls xs @ progress_calls ys"
  by (induction xs rule: progress_calls.induct) simp_all

lemma slice_chunk:
  "file_slice f (i * c) (min (i * c + c) (file_size f)) = take c (drop (i * c) (content f))"
proof (cases "i * c \<le> file_size f")
  case True
  then have "file_slice f (i * c) (min (i * c + c) (file_size f))
      = take (min c (length (drop (i * c) (content f)))) (drop (i * c) (content f))"
    by (simp add: file_slice_def Let_def file_size_def min_def)
  then show ?thesis by (simp add: min_def)
next
  case False
  then show ?thesis by (simp add: file_slice_def Let_def file_size_def)
qed

lemma concat_chunks:
  "concat (map (\<lambda>i. take c (drop (i * c) xs)) [0..<n]) = take (n * c) xs"
proof (induction n)
  case (Suc n)
  have "take (n * c + c) xs = take (n * c) xs @ take c (drop (n * c) xs)"
    by (rule take_add)
  with Suc show ?case by (simp add: add.commute)
qed simp

lemma send_loop_frames:
  "sent_frames (send_loop s n i) =
     map (\<lambda>j. Chunk \<lparr>index = j,
                     data = file_slice (file s) (j * CHUNK_SIZE)
                              (min (j * CHUNK_SIZE + CHUNK_SIZE) (file_size (file s)))\<rparr>) [i..<n]"
proof (induction s n i rule: send_loop.induct)
  case (1 s n i)
  show ?case
  proof (cases "i < n")
    case True
    then have "[i..<n] = i # [Suc i..<n]" by (rule upt_conv_Cons)
    with True "1.IH" show ?thesis
      by (subst send_loop.simps) (simp add: Let_def sent_frames_append)
  next
    case False
    then show ?thesis by (subst send_loop.simps) simp
  qed
qed

lemma send_loop_progress:
  "progress_calls (send_loop s n i) =
     (if FileSender.onProgress s then map (\<lambda>j. percent (j + 1) n) [i..<n] else [])"
proof (induction s n i rule: send_loop.induct)
  case (1 s n i)
  show ?case
  proof (cases "i < n")
    case True
    then have "[i..<n] = i # [Suc i..<n]" by (rule upt_conv_Cons)
    with True "1.IH" show ?thesis
      by (subst send_loop.simps) (simp add: Let_def progress_calls_append)
  next
    case False
    then show ?thesis by (subst send_loop.simps) simp
  qed
qed

lemma sent_frames_send:
  "sent_frames (send s) =
     Metadata \<lparr>fileName = name (file s), fileType = type (file s),
               fileSize = file_size (file s), totalChunks = chunk_count (file_size (file s))\<rparr>
     # map (\<lambda>j. Chunk \<lparr>index = j,
                     data = file_slice (file s) (j * CHUNK_SIZE)
                              (min (j * CHUNK_SIZE + CHUNK_SIZE) (file_size (file s)))\<rparr>)
         [0..<chunk_count (file_size (file s))]
     @ [Complete]"
  by (simp add: send_def Let_def sent_frames_append send_loop_frames)

lemma progress_calls_send:
  "progress_calls (send s) =
     (if FileSender.onProgress s
      then map (\<lambda>j. percent (j + 1) (chunk_count (file_size (file s))))
             [0..<chunk_count (file_size (file s))]
      else [])"
  by (simp add: send_def Let_def progress_calls_append send_loop_progress)

subsection \<open>The chunks of a file\<close>

lemma chunk_length:
  assumes "n = (S + CHUNK_SIZE - 1) div CHUNK_SIZE" and "i < n" and "length xs = S"
  shows "length (take CHUNK_SIZE (drop (i * CHUNK_SIZE) xs))
       = (if i + 1 < n then CHUNK_SIZE else S - CHUNK_SIZE * (n - 1))"
  using assms by (auto simp add: CHUNK_SIZE_def min_def)

lemma chunks_cover:
  assumes "n = (S + CHUNK_SIZE - 1) div CHUNK_SIZE" and "length xs = S"
  shows "take (n * CHUNK_SIZE) xs = xs"
proof -
  have "S \<le> n * CHUNK_SIZE" using assms(1) by (simp add: CHUNK_SIZE_def)
  then show ?thesis using assms(2) by simp
qed

lemma sorted_percent:
  "sorted_wrt num_le (map (\<lambda>j. percent (k + j + 1) n) [i..<m])"
  by (simp add: sorted_wrt_map sorted_wrt_iff_nth_less percent_mono)

lemma sorted_progress_calls: "sorted_wrt num_le (progress_calls (send s))"
  using sorted_percent [of 0] by (simp add: progress_calls_send)

section \<open>Properties of the receiver\<close>

subsection \<open>One frame at a time\<close>

lemma receive_append:
  "receive r (xs @ ys) =
     (let (r1, calls1) = receive r xs; (r2, calls2) = receive r1 ys in (r2, calls1 @ calls2))"
  by (induction xs arbitrary: r) (simp_all add: Let_def split: prod.splits)

lemma receive_returning: "receive r ds = receive_with r (map (Pair returning) ds)"
  by (induction ds arbitrary: r) (simp_all add: listener_def Let_def split: prod.splits)

lemma listener_chunk_idle:
  "metadata r = None \<Longrightarrow> listener r (Message (Chunk c)) = (r, [])"
  by (simp add: listener_def on_data_def)

lemma listener_complete_idle:
  "metadata r = None \<Longrightarrow> listener r (Message Complete) = (r, [])"
  by (simp add: listener_def on_data_def)

lemma listener_chunk_collecting:
  "metadata r = Some m \<Longrightarrow>
   listener r (Message (Chunk c)) =
     (r\<lparr>chunks := array_put (chunks r) (index c) (data c),
        receivedChunks := receivedChunks r + 1\<rparr>,
      if onProgress r then [OnProgress (percent (receivedChunks r + 1) (totalChunks m))] else [])"
  by (simp add: listener_def on_data_def call_def returning_def Let_def)

lemma listener_complete_collecting:
  "metadata r = Some m \<Longrightarrow>
   listener r (Message Complete) =
     (r\<lparr>chunks := empty_array, metadata := None, receivedChunks := 0\<rparr>,
      if onComplete r then [OnComplete (new_Blob (chunks r) (fileType m)) (fileName m) (fileType m)]
      else [])"
  by (simp add: listener_def on_data_def call_def returning_def Let_def)

lemma listener_metadata:
  "totalChunks m \<le> MAX_ARRAY_LENGTH \<Longrightarrow>
   listener r (Message (Metadata m)) =
     (r\<lparr>metadata := Some m,
        chunks := \<lparr>array_length = totalChunks m, element = (\<lambda>i. None)\<rparr>,
        receivedChunks := 0\<rparr>,
      if onStart r then [OnStart] else [])"
  by (simp add: listener_def on_data_def call_def returning_def Let_def new_Array_def)

lemma listener_metadata_invalid:
  "MAX_ARRAY_LENGTH < totalChunks m \<Longrightarrow>
   listener r (Message (Metadata m)) =
     (r\<lparr>metadata := Some m\<rparr>, if onError r then [OnError RangeError] else [])"
  by (simp add: listener_def on_data_def call_def returning_def Let_def new_Array_def)

lemma receive_chunks:
  "metadata r = Some m \<Longrightarrow>
   receive r (map (\<lambda>c. Message (Chunk c)) cs) =
     (r\<lparr>chunks := foldl (\<lambda>a c. array_put a (index c) (data c)) (chunks r) cs,
        receivedChunks := receivedChunks r + length cs\<rparr>,
      if onProgress r
      then map (\<lambda>k. OnProgress (percent (receivedChunks r + k + 1) (totalChunks m))) [0..<length cs]
      else [])"
proof (induction cs arbitrary: r)
  case Nil
  then show ?case by simp
next
  case (Cons c cs)
  let ?r1 = "r\<lparr>chunks := array_put (chunks r) (index c) (data c),
                receivedChunks := receivedChunks r + 1\<rparr>"
  have m1: "metadata ?r1 = Some m" using Cons.prems by simp
  have shift: "map (\<lambda>k. OnProgress (percent (receivedChunks r + k + 1) (totalChunks m)))
                 [0..<Suc (length cs)]
      = OnProgress (percent (receivedChunks r + 1) (totalChunks m))
        # map (\<lambda>k. OnProgress (percent (receivedChunks ?r1 + k + 1) (totalChunks m)))
            [0..<length cs]"
    by (simp add: upt_rec [of 0 "Suc (length cs)"] map_Suc_upt [symmetric] del: upt_Suc)
  show ?case
    using Cons.IH [OF m1] shift
    by (simp add: listener_chunk_collecting [OF Cons.prems] del: upt_Suc)
qed

subsection \<open>Chunks stored in index order\<close>

lemma array_put_element:
  "element (array_put a i v) j = (if j = i then Some v else element a j)"
  by (simp add: array_put_def)

lemma array_put_length_inside:
  "i < array_length a \<Longrightarrow> array_length (array_put a i v) = array_length a"
  by (simp add: array_put_def)

lemma fill_in_order:
  assumes "n \<le> length ds"
  defines "a0 \<equiv> \<lparr>array_length = length ds, element = (\<lambda>i. None)\<rparr>"
  shows "array_length (foldl (\<lambda>a c. array_put a (index c) (data c)) a0
            (map (\<lambda>i. \<lparr>index = i, data = ds ! i\<rparr>) [0..<n])) = length ds
       \<and> element (foldl (\<lambda>a c. array_put a (index c) (data c)) a0
            (map (\<lambda>i. \<lparr>index = i, data = ds ! i\<rparr>) [0..<n]))
         = (\<lambda>i. if i < n then Some (ds ! i) else None)"
  using assms(1)
proof (induction n)
  case 0
  then show ?case by (simp add: a0_def)
next
  case (Suc n)
  then have IH: "array_length (foldl (\<lambda>a c. array_put a (index c) (data c)) a0
            (map (\<lambda>i. \<lparr>index = i, data = ds ! i\<rparr>) [0..<n])) = length ds"
       "element (foldl (\<lambda>a c. array_put a (index c) (data c)) a0
            (map (\<lambda>i. \<lparr>index = i, data = ds ! i\<rparr>) [0..<n]))
         = (\<lambda>i. if i < n then Some (ds ! i) else None)"
    by simp_all
  have n: "n < length ds" using Suc.prems by simp
  show ?case
    using IH n by (auto simp add: array_put_length_inside array_put_element fun_eq_iff)
qed

lemma blob_of_filled:
  assumes "array_length a = length ds"
    and "element a = (\<lambda>i. if i < length ds then Some (ds ! i) else None)"
  shows "new_Blob a t = \<lparr>blob_bytes = concat ds, blob_type = normalized_type t\<rparr>"
proof -
  have "map (\<lambda>i. blob_part (element a i)) [0..<length ds] = map (\<lambda>i. ds ! i) [0..<length ds]"
    by (simp add: assms(2) blob_part_def)
  also have "\<dots> = ds" by (rule map_nth)
  finally show ?thesis by (simp add: new_Blob_def assms(1))
qed

subsection \<open>A whole transfer\<close>

lemma progress_values_append:
  "progress_values (xs @ ys) = progress_values xs @ progress_values ys"
  by (induction xs rule: progress_values.induct) simp_all

lemma progress_values_map: "progress_values (map (\<lambda>k. OnProgress (f k)) ks) = map f ks"
  by (induction ks) simp_all

lemma completed_sizes_append:
  "completed_sizes (xs @ ys) = completed_sizes xs @ completed_sizes ys"
  by (induction xs rule: completed_sizes.induct) simp_all

lemma completed_sizes_progress: "completed_sizes (map (\<lambda>k. OnProgress (f k)) ks) = []"
  by (induction ks) simp_all

lemma last_percent:
  assumes "0 < n"
  shows "last (map (\<lambda>k. percent (k + 1) n) [0..<n]) = Finite 100"
proof -
  obtain k where n: "n = Suc k" using assms by (cases n) simp_all
  show ?thesis unfolding n using percent_full [of "Suc k"] by simp
qed

lemma receive_transfer:
  assumes "totalChunks m \<le> MAX_ARRAY_LENGTH"
  shows "receive r (Message (Metadata m) # map (\<lambda>c. Message (Chunk c)) cs @ [Message Complete]) =
     (r\<lparr>chunks := empty_array, metadata := None, receivedChunks := 0\<rparr>,
      (if onStart r then [OnStart] else [])
      @ (if onProgress r
         then map (\<lambda>k. OnProgress (percent (k + 1) (totalChunks m))) [0..<length cs] else [])
      @ (if onComplete r
         then [OnComplete
                (new_Blob (foldl (\<lambda>a c. array_put a (index c) (data c))
                             \<lparr>array_length = totalChunks m, element = (\<lambda>i. None)\<rparr> cs)
                   (fileType m))
                (fileName m) (fileType m)]
         else []))"
proof -
  let ?r1 = "r\<lparr>metadata := Some m,
               chunks := \<lparr>array_length = totalChunks m, element = (\<lambda>i. None)\<rparr>,
               receivedChunks := 0\<rparr>"
  let ?r2 = "?r1\<lparr>chunks := foldl (\<lambda>a c. array_put a (index c) (data c)) (chunks ?r1) cs,
                  receivedChunks := receivedChunks ?r1 + length cs\<rparr>"
  have m1: "metadata ?r1 = Some m" by simp
  have m2: "metadata ?r2 = Some m" by simp
  note step1 = listener_metadata [OF assms, of r]
  note step2 = receive_chunks [OF m1, of cs]
  note step3 = listener_complete_collecting [OF m2]
  show ?thesis
    by (simp only: receive.simps receive_append step1 step2 step3 Let_def prod.case)
      (simp del: upt_Suc)
qed

lemma receive_transfer_invalid:
  assumes "MAX_ARRAY_LENGTH < totalChunks m"
  shows "receive r (Message (Metadata m) # map (\<lambda>c. Message (Chunk c)) cs @ [Message Complete]) =
     (r\<lparr>chunks := empty_array, metadata := None, receivedChunks := 0\<rparr>,
      (if onError r then [OnError RangeError] else [])
      @ (if onProgress r
         then map (\<lambda>k. OnProgress (percent (receivedChunks r + k + 1) (totalChunks m)))
                [0..<length cs]
         else [])
      @ (if onComplete r
         then [OnComplete
                (new_Blob (foldl (\<lambda>a c. array_put a (index c) (data c)) (chunks r) cs)
                   (fileType m))
                (fileName m) (fileType m)]
         else []))"
proof -
  let ?r1 = "r\<lparr>metadata := Some m\<rparr>"
  let ?r2 = "?r1\<lparr>chunks := foldl (\<lambda>a c. array_put a (index c) (data c)) (chunks ?r1) cs,
                  receivedChunks := receivedChunks ?r1 + length cs\<rparr>"
  have m1: "metadata ?r1 = Some m" by simp
  have m2: "metadata ?r2 = Some m" by simp
  note step1 = listener_metadata_invalid [OF assms, of r]
  note step2 = receive_chunks [OF m1, of cs]
  note step3 = listener_complete_collecting [OF m2]
  show ?thesis
    by (simp only: receive.simps receive_append step1 step2 step3 Let_def prod.case)
      (simp del: upt_Suc)
qed

lemma sorted_progress_values:
  "sorted_wrt num_le (progress_values (snd (receive r
      (Message (Metadata m) # map (\<lambda>c. Message (Chunk c)) cs @ [Message Complete]))))"
proof (cases "totalChunks m \<le> MAX_ARRAY_LENGTH")
  case True
  show ?thesis
    using sorted_percent [of 0 "totalChunks m" 0 "length cs"]
    by (simp only: receive_transfer [OF True])
      (simp add: progress_values_append progress_values_map del: upt_Suc)
next
  case False
  then have invalid: "MAX_ARRAY_LENGTH < totalChunks m" by simp
  show ?thesis
    using sorted_percent [of "receivedChunks r" "totalChunks m" 0 "length cs"]
    by (simp only: receive_transfer_invalid [OF invalid])
      (simp add: progress_values_append progress_values_map del: upt_Suc)
qed

subsection \<open>Chunks with different indices commute\<close>

lemma array_put_commute:
  "i \<noteq> j \<Longrightarrow> array_put (array_put a i v) j w = array_put (array_put a j w) i v"
  by (auto simp add: array_put_def fun_upd_twist)

lemma listener_chunks_commute:
  assumes "index a \<noteq> index b"
  shows "receive r (Message (Chunk a) # Message (Chunk b) # ds)
       = receive r (Message (Chunk b) # Message (Chunk a) # ds)"
proof (cases "metadata r")
  case None
  then show ?thesis by (simp add: listener_chunk_idle)
next
  case (Some m)
  let ?p1 = "if onProgress r
             then [OnProgress (percent (receivedChunks r + 1) (totalChunks m))] else []"
  let ?p2 = "if onProgress r
             then [OnProgress (percent (receivedChunks r + 1 + 1) (totalChunks m))] else []"
  let ?ra = "r\<lparr>chunks := array_put (chunks r) (index a) (data a),
               receivedChunks := receivedChunks r + 1\<rparr>"
  let ?rb = "r\<lparr>chunks := array_put (chunks r) (index b) (data b),
               receivedChunks := receivedChunks r + 1\<rparr>"
  let ?rab = "r\<lparr>chunks := array_put (array_put (chunks r) (index a) (data a))
                           (index b) (data b),
                receivedChunks := receivedChunks r + 1 + 1\<rparr>"
  have ma: "metadata ?ra = Some m" and mb: "metadata ?rb = Some m" using Some by simp_all
  have a1: "listener r (Message (Chunk a)) = (?ra, ?p1)"
    by (rule listener_chunk_collecting [OF Some])
  have b1: "listener r (Message (Chunk b)) = (?rb, ?p1)"
    by (rule listener_chunk_collecting [OF Some])
  have a2: "listener ?ra (Message (Chunk b)) = (?rab, ?p2)"
    using listener_chunk_collecting [OF ma, of b] by simp
  have b2: "listener ?rb (Message (Chunk a)) = (?rab, ?p2)"
    using listener_chunk_collecting [OF mb, of a] array_put_commute [OF assms] by simp
  show ?thesis
    by (simp only: receive.simps a1 b1 a2 b2 Let_def prod.case)
qed

lemma receive_insort:
  assumes "\<forall>c \<in> set cs. index c \<noteq> index a"
  shows "receive r (map (\<lambda>c. Message (Chunk c)) (insort_key index a cs) @ ds)
       = receive r (Message (Chunk a) # map (\<lambda>c. Message (Chunk c)) cs @ ds)"
  using assms
proof (induction cs arbitrary: r)
  case Nil
  then show ?case by simp
next
  case (Cons c cs)
  show ?case
  proof (cases "index a \<le> index c")
    case True
    then show ?thesis by simp
  next
    case False
    have rest: "\<forall>c \<in> set cs. index c \<noteq> index a" using Cons.prems by simp
    have differ: "index a \<noteq> index c" using Cons.prems by auto
    have "receive r (map (\<lambda>c. Message (Chunk c)) (insort_key index a (c # cs)) @ ds)
        = receive r (Message (Chunk c) # map (\<lambda>c. Message (Chunk c)) (insort_key index a cs) @ ds)"
      using False by simp
    also have "\<dots> = receive r (Message (Chunk c) # Message (Chunk a)
                         # map (\<lambda>c. Message (Chunk c)) cs @ ds)"
      using Cons.IH [OF rest] by (simp add: Let_def split: prod.splits)
    also have "\<dots> = receive r (Message (Chunk a) # Message (Chunk c)
                         # map (\<lambda>c. Message (Chunk c)) cs @ ds)"
      using differ by (intro listener_chunks_commute) simp
    finally show ?thesis by simp
  qed
qed

lemma receive_sort_key:
  assumes "distinct (map index cs)"
  shows "receive r (map (\<lambda>c. Message (Chunk c)) (sort_key index cs) @ ds)
       = receive r (map (\<lambda>c. Message (Chunk c)) cs @ ds)"
  using assms
proof (induction cs arbitrary: r)
  case Nil
  then show ?case by simp
next
  case (Cons c cs)
  have fresh: "\<forall>x \<in> set (sort_key index cs). index x \<noteq> index c"
    using Cons.prems by (auto simp add: image_iff)
  have rest: "distinct (map index cs)" using Cons.prems by simp
  have "receive r (map (\<lambda>c. Message (Chunk c)) (sort_key index (c # cs)) @ ds)
      = receive r (Message (Chunk c) # map (\<lambda>c. Message (Chunk c)) (sort_key index cs) @ ds)"
    using receive_insort [OF fresh] by simp
  also have "\<dots> = receive r (Message (Chunk c) # map (\<lambda>c. Message (Chunk c)) cs @ ds)"
    using Cons.IH [OF rest] by (simp add: Let_def split: prod.splits)
  finally show ?case by simp
qed

subsection \<open>Frames whose handling raises\<close>

text \<open>
  The handling of a frame raises in five ways: reading \<open>type\<close> of \<open>null\<close> or
  \<open>undefined\<close>, before anything is assigned; \<open>new Array\<close> for a \<open>totalChunks\<close> that is
  not an array length, after \<open>metadata\<close> has been assigned; and a callback that
  throws: \<open>onStart\<close> and \<open>onProgress\<close> after the fields have been assigned,
  \<open>onComplete\<close> before they are reset.
\<close>

lemma try_block_raises:
  assumes "try_block env r d = (r', calls, Some t)"
  shows "d = Nullish \<and> t = An_Error TypeError \<and> calls = [] \<and> r' = r
       \<or> (\<exists>m. d = Message (Metadata m) \<and> MAX_ARRAY_LENGTH < totalChunks m
               \<and> t = An_Error RangeError \<and> calls = [] \<and> r' = r\<lparr>metadata := Some m\<rparr>)
       \<or> (\<exists>m. d = Message (Metadata m) \<and> totalChunks m \<le> MAX_ARRAY_LENGTH
               \<and> onStart r \<and> env OnStart = Some t \<and> calls = [OnStart]
               \<and> r' = r\<lparr>metadata := Some m,
                         chunks := \<lparr>array_length = totalChunks m, element = (\<lambda>i. None)\<rparr>,
                         receivedChunks := 0\<rparr>)
       \<or> (\<exists>c m. d = Message (Chunk c) \<and> metadata r = Some m \<and> onProgress r
               \<and> env (OnProgress (percent (receivedChunks r + 1) (totalChunks m))) = Some t
               \<and> calls = [OnProgress (percent (receivedChunks r + 1) (totalChunks m))]
               \<and> r' = r\<lparr>chunks := array_put (chunks r) (index c) (data c),
                         receivedChunks := receivedChunks r + 1\<rparr>)
       \<or> (\<exists>m. d = Message Complete \<and> metadata r = Some m \<and> onComplete r
               \<and> env (OnComplete (new_Blob (chunks r) (fileType m)) (fileName m) (fileType m))
                   = Some t
               \<and> calls = [OnComplete (new_Blob (chunks r) (fileType m)) (fileName m) (fileType m)]
               \<and> r' = r)"
proof (cases d)
  case Nullish
  with assms show ?thesis by auto
next
  case Unrelated
  with assms show ?thesis by simp
next
  case (Message msg)
  show ?thesis
  proof (cases msg)
    case (Metadata m)
    with Message assms show ?thesis
      by (auto simp add: Let_def new_Array_def call_def split: if_splits)
  next
    case (Chunk c)
    with Message assms show ?thesis
      by (auto simp add: Let_def call_def split: option.splits if_splits)
  next
    case Complete
    with Message assms show ?thesis
      by (auto simp add: Let_def call_def split: option.splits if_splits)
  qed
qed

lemma try_block_raises_fields:
  assumes "try_block env r d = (r', calls, Some t)"
  shows "onStart r' = onStart r \<and> onProgress r' = onProgress r
       \<and> onComplete r' = onComplete r \<and> onError r' = onError r"
  using try_block_raises [OF assms] by auto

lemma on_data_raises:
  assumes "try_block env r d = (r', calls, Some t)"
  shows "on_data env r d =
           (r', calls @ (if onError r then [OnError (caught t)] else []),
            if onError r then env (OnError (caught t)) else None)"
  using try_block_raises_fields [OF assms] by (simp add: on_data_def assms call_def)

text \<open>Rules for running the listener on given frames.\<close>

lemma normalized_type_samples:
  "normalized_type ''text/plain'' = ''text/plain''"
  "normalized_type ''application/octet-stream'' = ''application/octet-stream''"
  "normalized_type ''Text/Plain'' = ''text/plain''"
  by (simp_all add: normalized_type_def ascii_lowercase_def char_of_def bit_Suc_0_iff)

lemma normalized_type_idem: "normalized_type (normalized_type t) = normalized_type t"
proof -
  have low: "32 \<le> (of_char (ascii_lowercase c) :: nat) \<and> (of_char (ascii_lowercase c) :: nat) \<le> 126"
    if "32 \<le> (of_char c :: nat) \<and> (of_char c :: nat) \<le> 126" for c
    using that by (simp add: ascii_lowercase_def)
  have idem: "ascii_lowercase (ascii_lowercase c) = ascii_lowercase c" for c
    by (simp add: ascii_lowercase_def)
  show ?thesis
    using low by (auto simp add: normalized_type_def list_all_iff idem)
qed

lemmas receive_eval =
  listener_metadata listener_chunk_collecting listener_complete_collecting
  new_Blob_def blob_part_def normalized_type_def ascii_lowercase_def
  array_put_def empty_array_def MAX_ARRAY_LENGTH_def
  app_receiver_def new_FileReceiver_def

subsection \<open>Sender and receiver together\<close>

lemma receive_in_order:
  assumes "totalChunks m = length ds" and "length ds \<le> MAX_ARRAY_LENGTH"
  shows "receive r (Message (Metadata m)
            # map (\<lambda>i. Message (Chunk \<lparr>index = i, data = ds ! i\<rparr>)) [0..<length ds]
            @ [Message Complete]) =
         (r\<lparr>chunks := empty_array, metadata := None, receivedChunks := 0\<rparr>,
          (if onStart r then [OnStart] else [])
          @ (if onProgress r
             then map (\<lambda>k. OnProgress (percent (k + 1) (length ds))) [0..<length ds] else [])
          @ (if onComplete r
             then [OnComplete \<lparr>blob_bytes = concat ds, blob_type = normalized_type (fileType m)\<rparr>
                     (fileName m) (fileType m)]
             else []))"
proof -
  let ?cs = "map (\<lambda>i. \<lparr>index = i, data = ds ! i\<rparr>) [0..<length ds]"
  have valid: "totalChunks m \<le> MAX_ARRAY_LENGTH" using assms by simp
  have frames: "map (\<lambda>i. Message (Chunk \<lparr>index = i, data = ds ! i\<rparr>)) [0..<length ds]
      = map (\<lambda>c. Message (Chunk c)) ?cs"
    by (simp add: comp_def)
  note filled = fill_in_order [of "length ds" ds, OF order_refl]
  have blob: "new_Blob (foldl (\<lambda>a c. array_put a (index c) (data c))
                 \<lparr>array_length = totalChunks m, element = (\<lambda>i. None)\<rparr> ?cs) (fileType m)
      = \<lparr>blob_bytes = concat ds, blob_type = normalized_type (fileType m)\<rparr>"
    unfolding assms(1) using filled by (intro blob_of_filled) simp_all
  have "receive r (Message (Metadata m) # map (\<lambda>c. Message (Chunk c)) ?cs @ [Message Complete]) =
         (r\<lparr>chunks := empty_array, metadata := None, receivedChunks := 0\<rparr>,
          (if onStart r then [OnStart] else [])
          @ (if onProgress r
             then map (\<lambda>k. OnProgress (percent (k + 1) (length ds))) [0..<length ds] else [])
          @ (if onComplete r
             then [OnComplete \<lparr>blob_bytes = concat ds, blob_type = normalized_type (fileType m)\<rparr>
                     (fileName m) (fileType m)]
             else []))"
    by (simp only: receive_transfer [OF valid] blob) (simp add: assms(1) del: upt_Suc)
  then show ?thesis by (simp only: frames)
qed

lemma chunk_count_bounds:
  assumes "n \<le> CHUNK_SIZE * MAX_ARRAY_LENGTH"
  shows "n \<le> MAX_SAFE_INTEGER" and "chunk_count n \<le> MAX_ARRAY_LENGTH"
proof -
  show safe: "n \<le> MAX_SAFE_INTEGER"
    using assms by (simp add: CHUNK_SIZE_def MAX_ARRAY_LENGTH_def MAX_SAFE_INTEGER_def)
  have "(n + CHUNK_SIZE - 1) div CHUNK_SIZE \<le> MAX_ARRAY_LENGTH"
    using assms by (simp add: CHUNK_SIZE_def MAX_ARRAY_LENGTH_def)
  then show "chunk_count n \<le> MAX_ARRAY_LENGTH"
    by (simp only: chunk_count_div [OF safe])
qed

lemma send_receive_roundtrip:
  assumes "file_size (file s) \<le> CHUNK_SIZE * MAX_ARRAY_LENGTH"
  shows "receive r (map Message (sent_frames (send s))) =
         (r\<lparr>chunks := empty_array, metadata := None, receivedChunks := 0\<rparr>,
          (if onStart r then [OnStart] else [])
          @ (if onProgress r
             then map (\<lambda>k. OnProgress (percent (k + 1) (chunk_count (file_size (file s)))))
                    [0..<chunk_count (file_size (file s))]
             else [])
          @ (if onComplete r
             then [OnComplete \<lparr>blob_bytes = content (file s), blob_type = normalized_type (type (file s))\<rparr>
                     (name (file s)) (type (file s))]
             else []))"
proof -
  let ?f = "file s"
  let ?S = "file_size ?f"
  let ?N = "chunk_count ?S"
  let ?payload = "\<lambda>i. file_slice ?f (i * CHUNK_SIZE) (min (i * CHUNK_SIZE + CHUNK_SIZE) ?S)"
  let ?ds = "map ?payload [0..<?N]"
  let ?m = "\<lparr>fileName = name ?f, fileType = type ?f, fileSize = ?S, totalChunks = ?N\<rparr>"
  note bounds = chunk_count_bounds [OF assms]
  have N: "?N = (?S + CHUNK_SIZE - 1) div CHUNK_SIZE" by (rule chunk_count_div [OF bounds(1)])
  have len: "length (content ?f) = ?S" by (simp add: file_size_def)
  have payload: "?payload = (\<lambda>i. take CHUNK_SIZE (drop (i * CHUNK_SIZE) (content ?f)))"
    by (rule ext) (rule slice_chunk)
  have "concat ?ds = take (?N * CHUNK_SIZE) (content ?f)"
    by (simp only: payload concat_chunks)
  then have whole: "concat ?ds = content ?f" using chunks_cover [OF N len] by simp
  have total: "totalChunks ?m = length ?ds" by simp
  have valid: "length ?ds \<le> MAX_ARRAY_LENGTH" using bounds(2) by simp
  have frames: "map Message (sent_frames (send s)) =
      Message (Metadata ?m)
      # map (\<lambda>i. Message (Chunk \<lparr>index = i, data = ?ds ! i\<rparr>)) [0..<length ?ds]
      @ [Message Complete]"
    by (simp add: sent_frames_send comp_def)
  show ?thesis
    unfolding frames receive_in_order [OF total valid] whole
    by simp
qed

section \<open>The claims of the specification\<close>

text \<open>
  Claim C1. For a file of size \<open>S\<close>, \<open>send\<close> hands to the connection, in this order:
  one \<open>Metadata\<close> frame with the file's name, type, size and
  \<open>totalChunks = \<lceil>S / CHUNK_SIZE\<rceil>\<close>, where \<open>CHUNK_SIZE = 16384\<close>; the \<open>Chunk\<close>
  frames with indices \<open>0, \<dots>, totalChunks - 1\<close>, every payload but the last of length
  \<open>CHUNK_SIZE\<close>, the last of length \<open>S - CHUNK_SIZE * (totalChunks - 1)\<close>, the
  lengths summing to \<open>S\<close> (the payloads concatenated are the file's content); one
  \<open>Complete\<close> frame. The size of a \<open>File\<close> is a safe integer.
\<close>

theorem C1_send_frame_sequence:
  assumes "file_size (file s) \<le> MAX_SAFE_INTEGER"
  shows "let f = file s; S = file_size f; N = nat \<lceil>real S / real CHUNK_SIZE\<rceil>;
             payload = (\<lambda>i. file_slice f (i * CHUNK_SIZE) (min (i * CHUNK_SIZE + CHUNK_SIZE) S))
         in CHUNK_SIZE = 16384
          \<and> sent_frames (send s) =
              Metadata \<lparr>fileName = name f, fileType = type f, fileSize = S, totalChunks = N\<rparr>
              # map (\<lambda>i. Chunk \<lparr>index = i, data = payload i\<rparr>) [0..<N] @ [Complete]
          \<and> (\<forall>i<N. length (payload i)
                     = (if i + 1 < N then CHUNK_SIZE else S - CHUNK_SIZE * (N - 1)))
          \<and> sum_list (map (\<lambda>i. length (payload i)) [0..<N]) = S
          \<and> concat (map payload [0..<N]) = content f"
proof -
  let ?f = "file s"
  let ?S = "file_size ?f"
  let ?N = "nat \<lceil>real ?S / real CHUNK_SIZE\<rceil>"
  let ?payload = "\<lambda>i. file_slice ?f (i * CHUNK_SIZE) (min (i * CHUNK_SIZE + CHUNK_SIZE) ?S)"
  have count: "chunk_count ?S = ?N" using chunk_count_exact [OF assms] .
  have N: "?N = (?S + CHUNK_SIZE - 1) div CHUNK_SIZE"
    using chunk_count_div [OF assms] count by simp
  have len: "length (content ?f) = ?S" by (simp add: file_size_def)
  have payload: "?payload = (\<lambda>i. take CHUNK_SIZE (drop (i * CHUNK_SIZE) (content ?f)))"
    by (rule ext) (rule slice_chunk)
  have 1: "CHUNK_SIZE = 16384" by (simp add: CHUNK_SIZE_def)
  have 2: "sent_frames (send s) =
              Metadata \<lparr>fileName = name ?f, fileType = type ?f, fileSize = ?S, totalChunks = ?N\<rparr>
              # map (\<lambda>i. Chunk \<lparr>index = i, data = ?payload i\<rparr>) [0..<?N] @ [Complete]"
    using sent_frames_send [of s] by (simp only: count)
  have 3: "\<forall>i<?N. length (?payload i)
                     = (if i + 1 < ?N then CHUNK_SIZE else ?S - CHUNK_SIZE * (?N - 1))"
    using chunk_length [OF N _ len] by (simp only: slice_chunk) blast
  have 5: "concat (map ?payload [0..<?N]) = content ?f"
  proof -
    have "concat (map ?payload [0..<?N]) = take (?N * CHUNK_SIZE) (content ?f)"
      by (simp only: payload concat_chunks)
    then show ?thesis using chunks_cover [OF N len] by simp
  qed
  have 4: "sum_list (map (\<lambda>i. length (?payload i)) [0..<?N]) = ?S"
  proof -
    have "sum_list (map (\<lambda>i. length (?payload i)) [0..<?N])
        = length (concat (map ?payload [0..<?N]))"
      by (simp add: length_concat comp_def)
    then show ?thesis using 5 len by simp
  qed
  from 1 2 3 4 5 show ?thesis
    unfolding Let_def by blast
qed

theorem C1_send_frame_sequence_witness:
  "file_size (file (app_sender two_chunk_file)) \<le> MAX_SAFE_INTEGER
   \<and> sent_frames (send (app_sender two_chunk_file)) =
       [Metadata \<lparr>fileName = ''b.bin'', fileType = ''application/octet-stream'',
                  fileSize = 16385, totalChunks = 2\<rparr>,
        Chunk \<lparr>index = 0, data = replicate 16384 7\<rparr>,
        Chunk \<lparr>index = 1, data = [7]\<rparr>,
        Complete]"
proof -
  have safe: "file_size (file (app_sender two_chunk_file)) \<le> MAX_SAFE_INTEGER"
    by (simp add: app_sender_def two_chunk_file_def file_size_def MAX_SAFE_INTEGER_def)
  have two: "[0..<2] = [0, 1]" by (simp add: upt_rec)
  from C1_send_frame_sequence [OF safe] safe show ?thesis
    by (simp add: Let_def app_sender_def two_chunk_file_def file_size_def CHUNK_SIZE_def
        file_slice_def two)
qed

text \<open>
  Claim C2, as the code has it. A \<open>Metadata\<close> frame, its \<open>N\<close> chunk frames in index
  order \<open>0, \<dots>, N - 1\<close> and a \<open>Complete\<close> frame make the receiver call \<open>onStart\<close>,
  \<open>onProgress\<close> once per chunk (where assigned) and then \<open>onComplete\<close> exactly once,
  with a Blob whose bytes are the concatenation of the chunk payloads in index order
  and whose type is the recorded type as the Blob constructor normalises it,
  together with the recorded file name and type. Afterwards the receiver is idle:
  \<open>metadata\<close> null, \<open>chunks\<close> empty, \<open>receivedChunks\<close> zero. The announced \<open>fileSize\<close>
  is never read: the outcome is the same whatever it is, and the length of the
  payload is the sum of the chunk lengths, announced or not. The \<open>Metadata\<close> frame
  that \<open>send\<close> emits announces the size of the file, and for the frames of \<open>send\<close>
  the payload is the content of the file, so that its length is the announced
  \<open>fileSize\<close>. (\<open>N\<close> is a valid array length.)
\<close>

theorem C2_reassembly_in_order:
  assumes "totalChunks m = length ds" and "length ds \<le> MAX_ARRAY_LENGTH"
    and "onComplete r"
  shows "receive r (Message (Metadata m)
            # map (\<lambda>i. Message (Chunk \<lparr>index = i, data = ds ! i\<rparr>)) [0..<length ds]
            @ [Message Complete]) =
         (r\<lparr>chunks := empty_array, metadata := None, receivedChunks := 0\<rparr>,
          (if onStart r then [OnStart] else [])
          @ (if onProgress r
             then map (\<lambda>k. OnProgress (percent (k + 1) (length ds))) [0..<length ds] else [])
          @ [OnComplete \<lparr>blob_bytes = concat ds, blob_type = normalized_type (fileType m)\<rparr>
               (fileName m) (fileType m)])
       \<and> receive r (Message (Metadata (m\<lparr>fileSize := n\<rparr>))
            # map (\<lambda>i. Message (Chunk \<lparr>index = i, data = ds ! i\<rparr>)) [0..<length ds]
            @ [Message Complete]) =
         receive r (Message (Metadata m)
            # map (\<lambda>i. Message (Chunk \<lparr>index = i, data = ds ! i\<rparr>)) [0..<length ds]
            @ [Message Complete])
       \<and> completed_sizes (snd (receive r (Message (Metadata m)
            # map (\<lambda>i. Message (Chunk \<lparr>index = i, data = ds ! i\<rparr>)) [0..<length ds]
            @ [Message Complete]))) = [sum_list (map length ds)]
       \<and> hd (sent_frames (send s)) =
           Metadata \<lparr>fileName = name (file s), fileType = type (file s),
                     fileSize = length (content (file s)),
                     totalChunks = chunk_count (file_size (file s))\<rparr>
       \<and> (file_size (file s) \<le> CHUNK_SIZE * MAX_ARRAY_LENGTH \<longrightarrow>
            receive r (map Message (sent_frames (send s))) =
              (r\<lparr>chunks := empty_array, metadata := None, receivedChunks := 0\<rparr>,
               (if onStart r then [OnStart] else [])
               @ (if onProgress r
                  then map (\<lambda>k. OnProgress (percent (k + 1) (chunk_count (file_size (file s)))))
                         [0..<chunk_count (file_size (file s))]
                  else [])
               @ [OnComplete \<lparr>blob_bytes = content (file s),
                               blob_type = normalized_type (type (file s))\<rparr>
                    (name (file s)) (type (file s))])
            \<and> completed_sizes (snd (receive r (map Message (sent_frames (send s)))))
              = [length (content (file s))])"
proof -
  have in_order: "receive r (Message (Metadata m')
            # map (\<lambda>i. Message (Chunk \<lparr>index = i, data = ds ! i\<rparr>)) [0..<length ds]
            @ [Message Complete]) =
         (r\<lparr>chunks := empty_array, metadata := None, receivedChunks := 0\<rparr>,
          (if onStart r then [OnStart] else [])
          @ (if onProgress r
             then map (\<lambda>k. OnProgress (percent (k + 1) (length ds))) [0..<length ds] else [])
          @ [OnComplete \<lparr>blob_bytes = concat ds, blob_type = normalized_type (fileType m')\<rparr>
               (fileName m') (fileType m')])"
    if "totalChunks m' = length ds" for m'
    using receive_in_order [OF that assms(2), of r] assms(3) by (simp only: if_True)
  have other: "totalChunks (m\<lparr>fileSize := n\<rparr>) = length ds" using assms(1) by simp
  have same: "receive r (Message (Metadata (m\<lparr>fileSize := n\<rparr>))
            # map (\<lambda>i. Message (Chunk \<lparr>index = i, data = ds ! i\<rparr>)) [0..<length ds]
            @ [Message Complete]) =
         receive r (Message (Metadata m)
            # map (\<lambda>i. Message (Chunk \<lparr>index = i, data = ds ! i\<rparr>)) [0..<length ds]
            @ [Message Complete])"
    unfolding in_order [OF assms(1)] in_order [OF other] by simp
  have size: "completed_sizes (snd (receive r (Message (Metadata m)
            # map (\<lambda>i. Message (Chunk \<lparr>index = i, data = ds ! i\<rparr>)) [0..<length ds]
            @ [Message Complete]))) = [sum_list (map length ds)]"
    unfolding in_order [OF assms(1)]
    by (simp add: completed_sizes_append completed_sizes_progress length_concat del: upt_Suc)
  have first: "hd (sent_frames (send s)) =
           Metadata \<lparr>fileName = name (file s), fileType = type (file s),
                     fileSize = length (content (file s)),
                     totalChunks = chunk_count (file_size (file s))\<rparr>"
    by (simp add: sent_frames_send file_size_def)
  have roundtrip: "receive r (map Message (sent_frames (send s))) =
              (r\<lparr>chunks := empty_array, metadata := None, receivedChunks := 0\<rparr>,
               (if onStart r then [OnStart] else [])
               @ (if onProgress r
                  then map (\<lambda>k. OnProgress (percent (k + 1) (chunk_count (file_size (file s)))))
                         [0..<chunk_count (file_size (file s))]
                  else [])
               @ [OnComplete \<lparr>blob_bytes = content (file s),
                               blob_type = normalized_type (type (file s))\<rparr>
                    (name (file s)) (type (file s))])"
    if "file_size (file s) \<le> CHUNK_SIZE * MAX_ARRAY_LENGTH"
    using send_receive_roundtrip [OF that, of r] assms(3) by (simp only: if_True)
  have sent_size: "completed_sizes (snd (receive r (map Message (sent_frames (send s)))))
              = [length (content (file s))]"
    if "file_size (file s) \<le> CHUNK_SIZE * MAX_ARRAY_LENGTH"
    unfolding roundtrip [OF that]
    by (simp add: completed_sizes_append completed_sizes_progress del: upt_Suc)
  from in_order [OF assms(1)] same size first roundtrip sent_size show ?thesis by blast
qed

theorem C2_reassembly_in_order_witness:
  "totalChunks titled_metadata = length [[72, 105 :: 8 word]]
   \<and> length [[72, 105 :: 8 word]] \<le> MAX_ARRAY_LENGTH
   \<and> onStart app_receiver \<and> onProgress app_receiver \<and> onComplete app_receiver
   \<and> file_size (file (app_sender note_file)) \<le> CHUNK_SIZE * MAX_ARRAY_LENGTH
   \<and> receive app_receiver
        [Message (Metadata titled_metadata), Message (Chunk \<lparr>index = 0, data = [72, 105]\<rparr>),
         Message Complete] =
       (app_receiver,
        [OnStart, OnProgress (Finite 100),
         OnComplete \<lparr>blob_bytes = [72, 105], blob_type = ''text/plain''\<rparr>
           ''a.txt'' ''Text/Plain''])
   \<and> hd (sent_frames (send (app_sender note_file))) =
       Metadata \<lparr>fileName = ''a.txt'', fileType = ''text/plain'', fileSize = 2, totalChunks = 1\<rparr>
   \<and> completed_sizes (snd (receive app_receiver
        (map Message (sent_frames (send (app_sender note_file)))))) = [2]
   \<and> receive app_receiver (map Message (sent_frames (send (app_sender note_file)))) =
       (app_receiver,
        [OnStart, OnProgress (Finite 100),
         OnComplete \<lparr>blob_bytes = [72, 105], blob_type = ''text/plain''\<rparr>
           ''a.txt'' ''text/plain''])"
proof -
  have h1: "totalChunks titled_metadata = length [[72, 105 :: 8 word]]"
    by (simp add: titled_metadata_def)
  have h2: "length [[72, 105 :: 8 word]] \<le> MAX_ARRAY_LENGTH"
    by (simp add: MAX_ARRAY_LENGTH_def)
  have h3: "onStart app_receiver" "onProgress app_receiver" "onComplete app_receiver"
    by (simp_all add: app_receiver_def)
  have h5: "file_size (file (app_sender note_file)) \<le> CHUNK_SIZE * MAX_ARRAY_LENGTH"
    by (simp add: app_sender_def note_file_def file_size_def CHUNK_SIZE_def
        MAX_ARRAY_LENGTH_def)
  have idle: "app_receiver\<lparr>chunks := empty_array, metadata := None, receivedChunks := 0\<rparr>
      = app_receiver"
    by (simp add: app_receiver_def new_FileReceiver_def)
  have p: "percent (Suc 0) (Suc 0) = Finite 100" by (simp add: number_eval)
  have m: "fileName titled_metadata = ''a.txt''" "fileType titled_metadata = ''Text/Plain''"
    by (simp_all add: titled_metadata_def)
  have f: "name (file (app_sender note_file)) = ''a.txt''"
    "type (file (app_sender note_file)) = ''text/plain''"
    "content (file (app_sender note_file)) = [72, 105]"
    by (simp_all add: app_sender_def note_file_def)
  have "chunk_count (Suc (Suc 0)) = 1"
    using chunk_count_div [of "Suc (Suc 0)"]
    by (simp add: CHUNK_SIZE_def MAX_SAFE_INTEGER_def)
  then have n: "chunk_count (file_size (file (app_sender note_file))) = 1"
    by (simp add: app_sender_def note_file_def file_size_def)
  note inst = C2_reassembly_in_order [OF h1 h2 h3(3), of 0 "app_sender note_file",
      unfolded idle m f n normalized_type_samples]
  have a: "receive app_receiver
        [Message (Metadata titled_metadata), Message (Chunk \<lparr>index = 0, data = [72, 105]\<rparr>),
         Message Complete] =
       (app_receiver,
        [OnStart, OnProgress (Finite 100),
         OnComplete \<lparr>blob_bytes = [72, 105], blob_type = ''text/plain''\<rparr>
           ''a.txt'' ''Text/Plain''])"
    using inst h3 by (simp add: p del: receive.simps)
  have b: "receive app_receiver (map Message (sent_frames (send (app_sender note_file)))) =
       (app_receiver,
        [OnStart, OnProgress (Finite 100),
         OnComplete \<lparr>blob_bytes = [72, 105], blob_type = ''text/plain''\<rparr>
           ''a.txt'' ''text/plain''])"
    using inst h3 h5 by (simp add: p del: receive.simps)
  have c: "hd (sent_frames (send (app_sender note_file))) =
       Metadata \<lparr>fileName = ''a.txt'', fileType = ''text/plain'', fileSize = 2, totalChunks = 1\<rparr>"
    using inst by simp
  have d: "completed_sizes (snd (receive app_receiver
        (map Message (sent_frames (send (app_sender note_file)))))) = [2]"
    using inst h5 by (simp del: receive.simps)
  from h1 h2 h3 h5 a b c d show ?thesis by blast
qed

theorem C2_file_size_counterexample:
  "receive app_receiver
     [Message (Metadata overstated_metadata), Message (Chunk \<lparr>index = 0, data = [72, 105]\<rparr>),
      Message Complete] =
     (app_receiver,
      [OnStart, OnProgress (Finite 100),
       OnComplete \<lparr>blob_bytes = [72, 105], blob_type = ''text/plain''\<rparr>
         ''a.txt'' ''text/plain''])
   \<and> completed_sizes (snd (receive app_receiver
     [Message (Metadata overstated_metadata), Message (Chunk \<lparr>index = 0, data = [72, 105]\<rparr>),
      Message Complete])) = [2]
   \<and> fileSize overstated_metadata = 5"
proof -
  have p: "percent (Suc 0) (Suc 0) = Finite 100" by (simp add: number_eval)
  show ?thesis by (simp add: receive_eval overstated_metadata_def p)
qed

text \<open>
  Claim C3. For a \<open>Metadata\<close> frame and a set of chunks with distinct indices,
  delivering the chunks in any order and then \<open>Complete\<close> gives the same outcome, in
  particular the same payload handed to \<open>onComplete\<close>, as delivering them in
  ascending index order. When the set is the whole transfer, the payload is the
  concatenation of the chunk payloads in index order, whatever the order of arrival,
  in a Blob of the recorded type as the Blob constructor normalises it.
\<close>

theorem C3_reordering:
  assumes "distinct (map index cs)"
  shows "receive r (Message (Metadata m) # map (\<lambda>c. Message (Chunk c)) cs
                    @ [Message Complete])
       = receive r (Message (Metadata m) # map (\<lambda>c. Message (Chunk c)) (sort_key index cs)
                    @ [Message Complete])
       \<and> (sort_key index cs = map (\<lambda>i. \<lparr>index = i, data = ds ! i\<rparr>) [0..<length ds]
            \<and> totalChunks m = length ds \<and> length ds \<le> MAX_ARRAY_LENGTH
            \<and> onComplete r \<longrightarrow>
          receive r (Message (Metadata m) # map (\<lambda>c. Message (Chunk c)) cs
                     @ [Message Complete]) =
            (r\<lparr>chunks := empty_array, metadata := None, receivedChunks := 0\<rparr>,
             (if onStart r then [OnStart] else [])
             @ (if onProgress r
                then map (\<lambda>k. OnProgress (percent (k + 1) (length ds))) [0..<length ds]
                else [])
             @ [OnComplete \<lparr>blob_bytes = concat ds, blob_type = normalized_type (fileType m)\<rparr>
                  (fileName m) (fileType m)]))"
proof -
  let ?permuted = "Message (Metadata m) # map (\<lambda>c. Message (Chunk c)) cs @ [Message Complete]"
  let ?ascending = "Message (Metadata m) # map (\<lambda>c. Message (Chunk c)) (sort_key index cs)
                    @ [Message Complete]"
  have same: "receive r ?permuted = receive r ?ascending"
    using receive_sort_key [OF assms, of _ "[Message Complete]"] by simp
  have whole: "receive r ?permuted =
            (r\<lparr>chunks := empty_array, metadata := None, receivedChunks := 0\<rparr>,
             (if onStart r then [OnStart] else [])
             @ (if onProgress r
                then map (\<lambda>k. OnProgress (percent (k + 1) (length ds))) [0..<length ds]
                else [])
             @ [OnComplete \<lparr>blob_bytes = concat ds, blob_type = normalized_type (fileType m)\<rparr>
                  (fileName m) (fileType m)])"
    if sorted: "sort_key index cs = map (\<lambda>i. \<lparr>index = i, data = ds ! i\<rparr>) [0..<length ds]"
      and valid: "totalChunks m = length ds" "length ds \<le> MAX_ARRAY_LENGTH"
      and wired: "onComplete r"
  proof -
    have "map (\<lambda>c. Message (Chunk c)) (sort_key index cs)
        = map (\<lambda>i. Message (Chunk \<lparr>index = i, data = ds ! i\<rparr>)) [0..<length ds]"
      by (simp only: sorted map_map comp_def)
    then show ?thesis
      using receive_in_order [OF valid, of r] wired by (simp only: same if_True)
  qed
  from same whole show ?thesis by blast
qed

theorem C3_reordering_witness:
  "distinct (map index [\<lparr>index = 1, data = [105]\<rparr>, \<lparr>index = 0, data = [72]\<rparr>])
   \<and> sort_key index [\<lparr>index = 1, data = [105]\<rparr>, \<lparr>index = 0, data = [72]\<rparr>]
     = [\<lparr>index = 0, data = [72]\<rparr>, \<lparr>index = 1, data = [105]\<rparr>]
   \<and> totalChunks pair_metadata = length [[72], [105 :: 8 word]]
   \<and> length [[72], [105 :: 8 word]] \<le> MAX_ARRAY_LENGTH
   \<and> onComplete app_receiver
   \<and> receive app_receiver
        [Message (Metadata pair_metadata), Message (Chunk \<lparr>index = 1, data = [105]\<rparr>),
         Message (Chunk \<lparr>index = 0, data = [72]\<rparr>), Message Complete]
     = receive app_receiver
        [Message (Metadata pair_metadata), Message (Chunk \<lparr>index = 0, data = [72]\<rparr>),
         Message (Chunk \<lparr>index = 1, data = [105]\<rparr>), Message Complete]
   \<and> receive app_receiver
        [Message (Metadata pair_metadata), Message (Chunk \<lparr>index = 1, data = [105]\<rparr>),
         Message (Chunk \<lparr>index = 0, data = [72]\<rparr>), Message Complete]
     = (app_receiver,
        [OnStart, OnProgress (Finite 50), OnProgress (Finite 100),
         OnComplete \<lparr>blob_bytes = [72, 105], blob_type = ''text/plain''\<rparr>
           ''a.txt'' ''text/plain''])"
proof -
  let ?cs = "[\<lparr>index = 1, data = [105 :: 8 word]\<rparr>, \<lparr>index = 0, data = [72]\<rparr>]"
  let ?ds = "[[72], [105 :: 8 word]]"
  have h: "distinct (map index ?cs)" by simp
  have sorted: "sort_key index ?cs = [\<lparr>index = 0, data = [72]\<rparr>, \<lparr>index = 1, data = [105]\<rparr>]"
    by simp
  have two: "[0..<2] = [0, 1]" by (simp add: upt_rec)
  have in_order: "sort_key index ?cs = map (\<lambda>i. \<lparr>index = i, data = ?ds ! i\<rparr>) [0..<length ?ds]"
    by (simp add: two)
  have h1: "totalChunks pair_metadata = length ?ds" by (simp add: pair_metadata_def)
  have h2: "length ?ds \<le> MAX_ARRAY_LENGTH" by (simp add: MAX_ARRAY_LENGTH_def)
  have h3: "onStart app_receiver" "onProgress app_receiver" "onComplete app_receiver"
    by (simp_all add: app_receiver_def)
  have p: "percent (Suc 0) (Suc (Suc 0)) = Finite 50"
    "percent (Suc (Suc 0)) (Suc (Suc 0)) = Finite 100"
    by (simp_all add: number_eval)
  have idle: "app_receiver\<lparr>chunks := empty_array, metadata := None, receivedChunks := 0\<rparr>
      = app_receiver"
    by (simp add: app_receiver_def new_FileReceiver_def)
  have m: "fileName pair_metadata = ''a.txt''" "fileType pair_metadata = ''text/plain''"
    by (simp_all add: pair_metadata_def)
  note t = normalized_type_samples(1)
  note inst = C3_reordering [OF h, of app_receiver pair_metadata ?ds]
  have same: "receive app_receiver
        [Message (Metadata pair_metadata), Message (Chunk \<lparr>index = 1, data = [105]\<rparr>),
         Message (Chunk \<lparr>index = 0, data = [72]\<rparr>), Message Complete]
     = receive app_receiver
        [Message (Metadata pair_metadata), Message (Chunk \<lparr>index = 0, data = [72]\<rparr>),
         Message (Chunk \<lparr>index = 1, data = [105]\<rparr>), Message Complete]"
    using inst by (simp only: sorted list.map append_Cons append_Nil)
  have "receive app_receiver
          (Message (Metadata pair_metadata) # map (\<lambda>c. Message (Chunk c)) ?cs
           @ [Message Complete]) =
        (app_receiver,
         (if onStart app_receiver then [OnStart] else [])
         @ (if onProgress app_receiver
            then map (\<lambda>k. OnProgress (percent (k + 1) (length ?ds))) [0..<length ?ds]
            else [])
         @ [OnComplete \<lparr>blob_bytes = concat ?ds, blob_type = ''text/plain''\<rparr>
              ''a.txt'' ''text/plain''])"
    using inst in_order h1 h2 h3(3) unfolding idle m t by blast
  then have whole: "receive app_receiver
        [Message (Metadata pair_metadata), Message (Chunk \<lparr>index = 1, data = [105]\<rparr>),
         Message (Chunk \<lparr>index = 0, data = [72]\<rparr>), Message Complete]
     = (app_receiver,
        [OnStart, OnProgress (Finite 50), OnProgress (Finite 100),
         OnComplete \<lparr>blob_bytes = [72, 105], blob_type = ''text/plain''\<rparr>
           ''a.txt'' ''text/plain''])"
    using h3 by (simp add: two p del: receive.simps)
  from h sorted h1 h2 h3(3) same whole show ?thesis by blast
qed

text \<open>
  Claim C4, as the code has it. The values \<open>send\<close> hands to \<open>onProgress\<close> are
  non-decreasing; there is one per \<open>Chunk\<close> frame emitted, the \<open>i\<close>-th being
  \<open>Math.round(((i + 1) / totalChunks) * 100)\<close> as binary64 arithmetic computes it,
  an integer between 0 and 100 within \<open>1/2 + 2\<^sup>-\<^sup>4\<^sup>5\<close> of the exact percentage; for a
  file that is not empty the last one is 100, and for an empty file there is none.
  The values a receiver hands to \<open>onProgress\<close> between a \<open>Metadata\<close> frame and
  \<open>Complete\<close> are non-decreasing; the \<open>k\<close>-th is
  \<open>Math.round(((k + 1) / totalChunks) * 100)\<close> for the announced \<open>totalChunks\<close>, so
  the last one is the value for the number of \<open>Chunk\<close> frames that arrived: it is
  100 when that number is the announced \<open>totalChunks\<close>, and need not be otherwise.
\<close>

theorem C4_progress_sequences:
  "(let n = chunk_count (file_size (file s)); ps = progress_calls (send s)
    in sorted_wrt num_le ps
     \<and> (FileSender.onProgress s \<longrightarrow>
          length (filter is_Chunk (sent_frames (send s))) = n
          \<and> length ps = n
          \<and> ps = map (\<lambda>i. percent (i + 1) n) [0..<n]
          \<and> (\<forall>i<n. ps ! i = Finite (of_int
                        \<lfloor>round_double (round_double (real (i + 1) / real n) * 100) + 1 / 2\<rfloor>)
                  \<and> (\<exists>k. ps ! i = Finite (of_int k) \<and> 0 \<le> k \<and> k \<le> 100
                         \<and> \<bar>of_int k - 100 * real (i + 1) / real n\<bar> \<le> 1 / 2 + 1 / 2 ^ 45))
          \<and> (0 < file_size (file s) \<longrightarrow> ps \<noteq> [] \<and> last ps = Finite 100)
          \<and> (file_size (file s) = 0 \<longrightarrow> ps = [])))
   \<and> (let n = totalChunks m;
          ps = progress_values (snd (receive r
                (Message (Metadata m) # map (\<lambda>c. Message (Chunk c)) cs
                 @ [Message Complete])))
      in sorted_wrt num_le ps
       \<and> (onProgress r \<and> n \<le> MAX_ARRAY_LENGTH \<longrightarrow>
            length ps = length cs
            \<and> ps = map (\<lambda>k. percent (k + 1) n) [0..<length cs]
            \<and> (\<forall>k<length cs. k < n \<longrightarrow>
                  ps ! k = Finite (of_int
                      \<lfloor>round_double (round_double (real (k + 1) / real n) * 100) + 1 / 2\<rfloor>)
                  \<and> (\<exists>j. ps ! k = Finite (of_int j) \<and> 0 \<le> j \<and> j \<le> 100
                         \<and> \<bar>of_int j - 100 * real (k + 1) / real n\<bar> \<le> 1 / 2 + 1 / 2 ^ 45))
            \<and> (cs \<noteq> [] \<longrightarrow> last ps = percent (length cs) n)
            \<and> (cs \<noteq> [] \<and> length cs = n \<longrightarrow> last ps = Finite 100)))"
proof -
  let ?n = "chunk_count (file_size (file s))"
  let ?ps = "map (\<lambda>i. percent (i + 1) ?n) [0..<?n]"
  have nth_value: "map (\<lambda>i. percent (i + 1) n) [0..<l] ! i
        = Finite (of_int \<lfloor>round_double (round_double (real (i + 1) / real n) * 100) + 1 / 2\<rfloor>)
      \<and> (\<exists>k. map (\<lambda>i. percent (i + 1) n) [0..<l] ! i = Finite (of_int k) \<and> 0 \<le> k \<and> k \<le> 100
             \<and> \<bar>of_int k - 100 * real (i + 1) / real n\<bar> \<le> 1 / 2 + 1 / 2 ^ 45)"
    if "i < l" and "i < n" for i l n
  proof -
    have nth: "map (\<lambda>i. percent (i + 1) n) [0..<l] ! i = percent (i + 1) n"
      using that(1) by simp
    have n: "0 < n" and le: "i + 1 \<le> n" using that(2) by simp_all
    have "0 < i + 1" by simp
    from percent_nearest [OF this le] percent_finite [OF n, of "i + 1"]
    show ?thesis unfolding nth by simp
  qed
  have last_value: "last (map (\<lambda>i. percent (i + 1) n) [0..<l]) = percent l n"
    if pos: "0 < l" for l n
  proof -
    obtain k where l: "l = Suc k" using pos by (cases l) simp_all
    show ?thesis unfolding l by simp
  qed
  have sorted: "sorted_wrt num_le (progress_calls (send s))"
    by (rule sorted_progress_calls)
  have chunks: "length (filter is_Chunk (sent_frames (send s))) = ?n"
    by (simp add: sent_frames_send filter_map comp_def)
  have ps: "progress_calls (send s) = ?ps" if "FileSender.onProgress s"
    using that by (simp add: progress_calls_send)
  have final: "?ps \<noteq> [] \<and> last ?ps = Finite 100" if "0 < file_size (file s)"
    using last_percent [of ?n] chunk_count_pos [OF that] by simp
  have none: "?ps = []" if "file_size (file s) = 0"
    using that by (simp add: chunk_count_def)
  have sender: "FileSender.onProgress s \<longrightarrow>
          length (filter is_Chunk (sent_frames (send s))) = ?n
          \<and> length (progress_calls (send s)) = ?n
          \<and> progress_calls (send s) = ?ps
          \<and> (\<forall>i<?n. progress_calls (send s) ! i = Finite (of_int
                        \<lfloor>round_double (round_double (real (i + 1) / real ?n) * 100) + 1 / 2\<rfloor>)
                  \<and> (\<exists>k. progress_calls (send s) ! i = Finite (of_int k) \<and> 0 \<le> k \<and> k \<le> 100
                         \<and> \<bar>of_int k - 100 * real (i + 1) / real ?n\<bar> \<le> 1 / 2 + 1 / 2 ^ 45))
          \<and> (0 < file_size (file s) \<longrightarrow>
               progress_calls (send s) \<noteq> [] \<and> last (progress_calls (send s)) = Finite 100)
          \<and> (file_size (file s) = 0 \<longrightarrow> progress_calls (send s) = [])"
  proof
    assume on: "FileSender.onProgress s"
    have len: "length ?ps = ?n" by simp
    show "length (filter is_Chunk (sent_frames (send s))) = ?n
          \<and> length (progress_calls (send s)) = ?n
          \<and> progress_calls (send s) = ?ps
          \<and> (\<forall>i<?n. progress_calls (send s) ! i = Finite (of_int
                        \<lfloor>round_double (round_double (real (i + 1) / real ?n) * 100) + 1 / 2\<rfloor>)
                  \<and> (\<exists>k. progress_calls (send s) ! i = Finite (of_int k) \<and> 0 \<le> k \<and> k \<le> 100
                         \<and> \<bar>of_int k - 100 * real (i + 1) / real ?n\<bar> \<le> 1 / 2 + 1 / 2 ^ 45))
          \<and> (0 < file_size (file s) \<longrightarrow>
               progress_calls (send s) \<noteq> [] \<and> last (progress_calls (send s)) = Finite 100)
          \<and> (file_size (file s) = 0 \<longrightarrow> progress_calls (send s) = [])"
      unfolding ps [OF on] using chunks len nth_value [of _ ?n ?n] final none by blast
  qed
  let ?N = "totalChunks m"
  let ?frames = "Message (Metadata m) # map (\<lambda>c. Message (Chunk c)) cs @ [Message Complete]"
  let ?qs = "map (\<lambda>k. percent (k + 1) ?N) [0..<length cs]"
  have sorted': "sorted_wrt num_le (progress_values (snd (receive r ?frames)))"
    by (rule sorted_progress_values)
  have qs: "progress_values (snd (receive r ?frames)) = ?qs"
    if "onProgress r" and "?N \<le> MAX_ARRAY_LENGTH"
    using that(1)
    by (simp only: receive_transfer [OF that(2)])
      (simp add: progress_values_append progress_values_map del: upt_Suc)
  have receiver: "onProgress r \<and> ?N \<le> MAX_ARRAY_LENGTH \<longrightarrow>
            length (progress_values (snd (receive r ?frames))) = length cs
            \<and> progress_values (snd (receive r ?frames)) = ?qs
            \<and> (\<forall>k<length cs. k < ?N \<longrightarrow>
                  progress_values (snd (receive r ?frames)) ! k = Finite (of_int
                      \<lfloor>round_double (round_double (real (k + 1) / real ?N) * 100) + 1 / 2\<rfloor>)
                  \<and> (\<exists>j. progress_values (snd (receive r ?frames)) ! k = Finite (of_int j)
                         \<and> 0 \<le> j \<and> j \<le> 100
                         \<and> \<bar>of_int j - 100 * real (k + 1) / real ?N\<bar> \<le> 1 / 2 + 1 / 2 ^ 45))
            \<and> (cs \<noteq> [] \<longrightarrow> last (progress_values (snd (receive r ?frames)))
                              = percent (length cs) ?N)
            \<and> (cs \<noteq> [] \<and> length cs = ?N \<longrightarrow>
                 last (progress_values (snd (receive r ?frames))) = Finite 100)"
  proof
    assume on: "onProgress r \<and> ?N \<le> MAX_ARRAY_LENGTH"
    then have eq: "progress_values (snd (receive r ?frames)) = ?qs" using qs by blast
    have len: "length ?qs = length cs" by simp
    have l: "last ?qs = percent (length cs) ?N" if "cs \<noteq> []"
      using last_value [of "length cs" ?N] that by simp
    have f: "last ?qs = Finite 100" if full: "cs \<noteq> [] \<and> length cs = ?N"
    proof -
      have "0 < ?N" using full by (cases cs) auto
      then have "percent ?N ?N = Finite 100" by (rule percent_full)
      with l full show ?thesis by simp
    qed
    show "length (progress_values (snd (receive r ?frames))) = length cs
            \<and> progress_values (snd (receive r ?frames)) = ?qs
            \<and> (\<forall>k<length cs. k < ?N \<longrightarrow>
                  progress_values (snd (receive r ?frames)) ! k = Finite (of_int
                      \<lfloor>round_double (round_double (real (k + 1) / real ?N) * 100) + 1 / 2\<rfloor>)
                  \<and> (\<exists>j. progress_values (snd (receive r ?frames)) ! k = Finite (of_int j)
                         \<and> 0 \<le> j \<and> j \<le> 100
                         \<and> \<bar>of_int j - 100 * real (k + 1) / real ?N\<bar> \<le> 1 / 2 + 1 / 2 ^ 45))
            \<and> (cs \<noteq> [] \<longrightarrow> last (progress_values (snd (receive r ?frames)))
                              = percent (length cs) ?N)
            \<and> (cs \<noteq> [] \<and> length cs = ?N \<longrightarrow>
                 last (progress_values (snd (receive r ?frames))) = Finite 100)"
      unfolding eq using len nth_value [of _ "length cs" ?N] l f by blast
  qed
  show ?thesis
    unfolding Let_def using sorted sender sorted' receiver by blast
qed

theorem C4_progress_sequences_witness:
  "FileSender.onProgress (app_sender three_chunk_file)
   \<and> 0 < file_size (file (app_sender three_chunk_file))
   \<and> (1::nat) < chunk_count (file_size (file (app_sender three_chunk_file)))
   \<and> onProgress app_receiver
   \<and> totalChunks note_metadata \<le> MAX_ARRAY_LENGTH
   \<and> [\<lparr>index = 0, data = [72, 105 :: 8 word]\<rparr>] \<noteq> []
   \<and> length [\<lparr>index = 0, data = [72, 105 :: 8 word]\<rparr>] = totalChunks note_metadata
   \<and> progress_calls (send (app_sender three_chunk_file)) = [Finite 33, Finite 67, Finite 100]
   \<and> progress_calls (send (app_sender three_chunk_file)) ! 1 = Finite 67
   \<and> \<bar>67 - 100 * real (1 + 1) / real 3\<bar> \<le> 1 / 2 + 1 / 2 ^ 45
   \<and> last (progress_calls (send (app_sender three_chunk_file))) = Finite 100
   \<and> progress_values (snd (receive app_receiver
        [Message (Metadata note_metadata), Message (Chunk \<lparr>index = 0, data = [72, 105]\<rparr>),
         Message Complete])) = [Finite 100]"
proof -
  have h1: "FileSender.onProgress (app_sender three_chunk_file)"
    by (simp add: app_sender_def)
  have h0: "0 < file_size (file (app_sender three_chunk_file))"
    by (simp add: app_sender_def three_chunk_file_def file_size_def)
  have h2: "onProgress app_receiver" by (simp add: app_receiver_def)
  have h3: "totalChunks note_metadata \<le> MAX_ARRAY_LENGTH"
    by (simp add: note_metadata_def MAX_ARRAY_LENGTH_def)
  have h4: "[\<lparr>index = 0, data = [72, 105 :: 8 word]\<rparr>] \<noteq> []" by simp
  have h5: "length [\<lparr>index = 0, data = [72, 105 :: 8 word]\<rparr>] = totalChunks note_metadata"
    by (simp add: note_metadata_def)
  have n: "chunk_count (file_size (file (app_sender three_chunk_file))) = 3"
    by (simp add: app_sender_def three_chunk_file_def file_size_def chunk_count_def
        CHUNK_SIZE_def number_eval)
  have h6: "(1::nat) < chunk_count (file_size (file (app_sender three_chunk_file)))"
    by (simp add: n)
  have three: "[0..<3] = [0, 1, 2]" by (simp add: upt_rec)
  have p: "percent (Suc 0) (Suc 0) = Finite 100" by (simp add: number_eval)
  have near: "\<bar>67 - 100 * real (1 + 1) / real 3\<bar> \<le> 1 / 2 + 1 / 2 ^ 45" by simp
  note inst = C4_progress_sequences [of "app_sender three_chunk_file" note_metadata app_receiver
      "[\<lparr>index = 0, data = [72, 105]\<rparr>]", unfolded Let_def n]
  have a: "progress_calls (send (app_sender three_chunk_file)) = [Finite 33, Finite 67, Finite 100]"
    using inst h1 by (simp add: three percent_thirds del: receive.simps)
  have a1: "progress_calls (send (app_sender three_chunk_file)) ! 1 = Finite 67"
    by (simp only: a) simp
  have a2: "last (progress_calls (send (app_sender three_chunk_file))) = Finite 100"
    using inst h1 h0 by blast
  have b: "progress_values (snd (receive app_receiver
        [Message (Metadata note_metadata), Message (Chunk \<lparr>index = 0, data = [72, 105]\<rparr>),
         Message Complete])) = [Finite 100]"
    using inst h2 h3 by (simp add: note_metadata_def p del: receive.simps)
  from h0 h1 h2 h3 h4 h5 h6 a a1 near a2 b show ?thesis by blast
qed

theorem C4_final_value_counterexample:
  "snd (receive app_receiver
      [Message (Metadata note_metadata), Message (Chunk \<lparr>index = 0, data = [72, 105]\<rparr>),
       Message (Chunk \<lparr>index = 0, data = [72, 105]\<rparr>), Message Complete])
     = [OnStart, OnProgress (Finite 100), OnProgress (Finite 200),
        OnComplete \<lparr>blob_bytes = [72, 105], blob_type = ''text/plain''\<rparr>
          ''a.txt'' ''text/plain'']
   \<and> last (progress_values (snd (receive app_receiver
      [Message (Metadata note_metadata), Message (Chunk \<lparr>index = 0, data = [72, 105]\<rparr>),
       Message (Chunk \<lparr>index = 0, data = [72, 105]\<rparr>), Message Complete]))) = Finite 200
   \<and> snd (receive app_receiver
      [Message (Metadata pair_metadata), Message (Chunk \<lparr>index = 0, data = [72]\<rparr>),
       Message Complete])
     = [OnStart, OnProgress (Finite 50),
        OnComplete \<lparr>blob_bytes = [72, 117, 110, 100, 101, 102, 105, 110, 101, 100],
                    blob_type = ''text/plain''\<rparr>
          ''a.txt'' ''text/plain'']
   \<and> last (progress_values (snd (receive app_receiver
      [Message (Metadata pair_metadata), Message (Chunk \<lparr>index = 0, data = [72]\<rparr>),
       Message Complete]))) = Finite 50
   \<and> progress_calls (send (app_sender empty_file)) = []"
proof -
  have p: "percent (Suc 0) (Suc 0) = Finite 100" "percent (Suc (Suc 0)) (Suc 0) = Finite 200"
    "percent (Suc 0) 2 = Finite 50"
    by (simp_all add: number_eval)
  have two: "[0..<2] = [0, 1]" by (simp add: upt_rec)
  have twice: "snd (receive app_receiver
      [Message (Metadata note_metadata), Message (Chunk \<lparr>index = 0, data = [72, 105]\<rparr>),
       Message (Chunk \<lparr>index = 0, data = [72, 105]\<rparr>), Message Complete])
     = [OnStart, OnProgress (Finite 100), OnProgress (Finite 200),
        OnComplete \<lparr>blob_bytes = [72, 105], blob_type = ''text/plain''\<rparr>
          ''a.txt'' ''text/plain'']"
    by (simp add: receive_eval note_metadata_def p)
  have short: "snd (receive app_receiver
      [Message (Metadata pair_metadata), Message (Chunk \<lparr>index = 0, data = [72]\<rparr>),
       Message Complete])
     = [OnStart, OnProgress (Finite 50),
        OnComplete \<lparr>blob_bytes = [72, 117, 110, 100, 101, 102, 105, 110, 101, 100],
                    blob_type = ''text/plain''\<rparr>
          ''a.txt'' ''text/plain'']"
    by (simp add: receive_eval pair_metadata_def p two)
  have "chunk_count (file_size (file (app_sender empty_file))) = 0"
    by (simp add: app_sender_def empty_file_def file_size_def chunk_count_def)
  then have none: "progress_calls (send (app_sender empty_file)) = []"
    by (simp add: progress_calls_send)
  have last_twice: "last (progress_values (snd (receive app_receiver
      [Message (Metadata note_metadata), Message (Chunk \<lparr>index = 0, data = [72, 105]\<rparr>),
       Message (Chunk \<lparr>index = 0, data = [72, 105]\<rparr>), Message Complete]))) = Finite 200"
    by (simp only: twice) simp
  have last_short: "last (progress_values (snd (receive app_receiver
      [Message (Metadata pair_metadata), Message (Chunk \<lparr>index = 0, data = [72]\<rparr>),
       Message Complete]))) = Finite 50"
    by (simp only: short) simp
  from twice last_twice short last_short none show ?thesis by blast
qed

text \<open>
  Claim C5, as the code has it. For a chunk frame accepted while collecting, the
  receiver calls \<open>onProgress\<close> exactly once, with
  \<open>Math.round((receivedChunks / totalChunks) * 100)\<close> for the count after the
  increment; the value lies between 0 and 100 whenever that count is at most
  \<open>totalChunks\<close>.
\<close>

theorem C5_progress_per_chunk:
  assumes "metadata r = Some m" and "onProgress r"
  shows "snd (listener r (Message (Chunk c)))
           = [OnProgress (percent (receivedChunks (fst (listener r (Message (Chunk c)))))
                            (totalChunks m))]
       \<and> receivedChunks (fst (listener r (Message (Chunk c)))) = receivedChunks r + 1
       \<and> (receivedChunks r + 1 \<le> totalChunks m \<longrightarrow>
            num_le (Finite 0) (percent (receivedChunks r + 1) (totalChunks m))
            \<and> num_le (percent (receivedChunks r + 1) (totalChunks m)) (Finite 100))"
proof -
  have step: "listener r (Message (Chunk c)) =
     (r\<lparr>chunks := array_put (chunks r) (index c) (data c),
        receivedChunks := receivedChunks r + 1\<rparr>,
      [OnProgress (percent (receivedChunks r + 1) (totalChunks m))])"
    using listener_chunk_collecting [OF assms(1), of c] assms(2) by simp
  have range: "num_le (Finite 0) (percent (receivedChunks r + 1) (totalChunks m))
            \<and> num_le (percent (receivedChunks r + 1) (totalChunks m)) (Finite 100)"
    if "receivedChunks r + 1 \<le> totalChunks m"
  proof -
    have "0 < totalChunks m" using that by simp
    from percent_range [OF this that] obtain p where
      "percent (receivedChunks r + 1) (totalChunks m) = Finite (of_int p)" "0 \<le> p" "p \<le> 100"
      by blast
    then show ?thesis by simp
  qed
  show ?thesis unfolding step using range by simp
qed

theorem C5_progress_per_chunk_witness:
  "metadata (app_receiver\<lparr>metadata := Some pair_metadata\<rparr>) = Some pair_metadata
   \<and> onProgress (app_receiver\<lparr>metadata := Some pair_metadata\<rparr>)
   \<and> receivedChunks (app_receiver\<lparr>metadata := Some pair_metadata\<rparr>) + 1
       \<le> totalChunks pair_metadata
   \<and> snd (listener (app_receiver\<lparr>metadata := Some pair_metadata\<rparr>)
            (Message (Chunk \<lparr>index = 0, data = [72]\<rparr>))) = [OnProgress (Finite 50)]
   \<and> num_le (Finite 0) (Finite 50) \<and> num_le (Finite 50) (Finite 100)"
proof -
  let ?r = "app_receiver\<lparr>metadata := Some pair_metadata\<rparr>"
  have h1: "metadata ?r = Some pair_metadata" by simp
  have h2: "onProgress ?r" by (simp add: app_receiver_def)
  have h3: "receivedChunks ?r + 1 \<le> totalChunks pair_metadata"
    by (simp add: app_receiver_def new_FileReceiver_def pair_metadata_def)
  have count: "receivedChunks ?r + 1 = 1"
    by (simp add: app_receiver_def new_FileReceiver_def)
  have p: "percent 1 (totalChunks pair_metadata) = Finite 50"
    by (simp add: pair_metadata_def number_eval)
  note inst = C5_progress_per_chunk [OF h1 h2, of "\<lparr>index = 0, data = [72]\<rparr>"]
  have calls: "snd (listener ?r (Message (Chunk \<lparr>index = 0, data = [72]\<rparr>)))
      = [OnProgress (Finite 50)]"
    using inst by (simp only: count p)
  have range: "num_le (Finite 0) (Finite 50) \<and> num_le (Finite 50) (Finite 100)"
    using inst h3 by (simp only: count p)
  from h1 h2 h3 calls range show ?thesis by blast
qed

theorem C5_range_counterexample:
  "progress_values (snd (receive app_receiver
      [Message (Metadata note_metadata), Message (Chunk \<lparr>index = 0, data = [72, 105]\<rparr>),
       Message (Chunk \<lparr>index = 0, data = [72, 105]\<rparr>)])) = [Finite 100, Finite 200]
   \<and> \<not> num_le (Finite 200) (Finite 100)"
proof -
  have p: "percent (Suc 0) (Suc 0) = Finite 100" "percent (Suc (Suc 0)) (Suc 0) = Finite 200"
    by (simp_all add: number_eval)
  show ?thesis by (simp add: receive_eval note_metadata_def p)
qed

text \<open>
  Claim C6. For a file of size 0, \<open>send\<close> computes \<open>totalChunks = 0\<close> and hands to the
  connection one \<open>Metadata\<close> frame followed at once by one \<open>Complete\<close> frame, with no
  \<open>Chunk\<close> frame between; a receiver given this sequence calls \<open>onComplete\<close> with an
  empty payload, a Blob of the type of the file as the Blob constructor normalises
  it.
\<close>

theorem C6_empty_file:
  assumes "file_size (file s) = 0" and "onComplete r"
  shows "chunk_count (file_size (file s)) = 0
       \<and> sent_frames (send s) =
           [Metadata \<lparr>fileName = name (file s), fileType = type (file s),
                      fileSize = 0, totalChunks = 0\<rparr>,
            Complete]
       \<and> snd (receive r (map Message (sent_frames (send s)))) =
           (if onStart r then [OnStart] else [])
           @ [OnComplete \<lparr>blob_bytes = [], blob_type = normalized_type (type (file s))\<rparr>
                (name (file s)) (type (file s))]"
proof -
  have count: "chunk_count (file_size (file s)) = 0"
    using assms(1) by (simp add: chunk_count_def)
  have frames: "sent_frames (send s) =
           [Metadata \<lparr>fileName = name (file s), fileType = type (file s),
                      fileSize = 0, totalChunks = 0\<rparr>,
            Complete]"
    using sent_frames_send [of s] count assms(1) by simp
  let ?m = "\<lparr>fileName = name (file s), fileType = type (file s),
              fileSize = 0, totalChunks = 0\<rparr>"
  have "snd (receive r [Message (Metadata ?m), Message Complete]) =
           (if onStart r then [OnStart] else [])
           @ [OnComplete \<lparr>blob_bytes = [], blob_type = normalized_type (type (file s))\<rparr>
                (name (file s)) (type (file s))]"
    using assms(2)
    by (simp add: listener_metadata listener_complete_collecting new_Blob_def)
  with count frames show ?thesis by simp
qed

theorem C6_empty_file_witness:
  "file_size (file (app_sender empty_file)) = 0 \<and> onComplete app_receiver
   \<and> sent_frames (send (app_sender empty_file)) =
       [Metadata \<lparr>fileName = ''empty.txt'', fileType = ''text/plain'',
                  fileSize = 0, totalChunks = 0\<rparr>,
        Complete]
   \<and> snd (receive app_receiver (map Message (sent_frames (send (app_sender empty_file))))) =
       [OnStart, OnComplete \<lparr>blob_bytes = [], blob_type = ''text/plain''\<rparr>
                   ''empty.txt'' ''text/plain'']"
proof -
  have empty: "file_size (file (app_sender empty_file)) = 0"
    by (simp add: app_sender_def empty_file_def file_size_def)
  have wired: "onComplete app_receiver"
    by (simp add: app_receiver_def)
  have start: "onStart app_receiver"
    by (simp add: app_receiver_def)
  have f: "name (file (app_sender empty_file)) = ''empty.txt''"
    "type (file (app_sender empty_file)) = ''text/plain''"
    by (simp_all add: app_sender_def empty_file_def)
  note inst = C6_empty_file [OF empty wired, unfolded f normalized_type_samples]
  have frames: "sent_frames (send (app_sender empty_file)) =
       [Metadata \<lparr>fileName = ''empty.txt'', fileType = ''text/plain'',
                  fileSize = 0, totalChunks = 0\<rparr>,
        Complete]"
    using inst by blast
  have "snd (receive app_receiver (map Message (sent_frames (send (app_sender empty_file))))) =
       (if onStart app_receiver then [OnStart] else [])
       @ [OnComplete \<lparr>blob_bytes = [], blob_type = ''text/plain''\<rparr>
            ''empty.txt'' ''text/plain'']"
    using inst by blast
  then have calls:
    "snd (receive app_receiver (map Message (sent_frames (send (app_sender empty_file))))) =
       [OnStart, OnComplete \<lparr>blob_bytes = [], blob_type = ''text/plain''\<rparr>
                   ''empty.txt'' ''text/plain'']"
    using start by simp
  from empty wired frames calls show ?thesis by blast
qed

text \<open>
  Claim C7. A \<open>Chunk\<close> frame delivered while the receiver is idle (\<open>metadata\<close> is
  \<open>null\<close>) is ignored: no callback is called and the receiver, that is \<open>metadata\<close>,
  \<open>chunks\<close>, \<open>receivedChunks\<close> and the callback fields, is unchanged.
\<close>

theorem C7_chunk_while_idle:
  "metadata r = None \<Longrightarrow> listener r (Message (Chunk c)) = (r, [])"
  by (simp add: listener_def on_data_def)

theorem C7_chunk_while_idle_witness:
  "metadata app_receiver = None
   \<and> listener app_receiver (Message (Chunk \<lparr>index = 0, data = [72, 105]\<rparr>)) = (app_receiver, [])"
proof -
  have idle: "metadata app_receiver = None"
    by (simp add: app_receiver_def new_FileReceiver_def)
  from C7_chunk_while_idle [OF idle] idle show ?thesis by simp
qed

text \<open>
  Claim C8, as the code has it. When handling an inbound frame raises an exception,
  the receiver calls \<open>onError\<close> exactly once, after the callback the frame called
  if it called one, with the value thrown if that is an \<open>Error\<close> and with a new
  \<open>Error\<close> "Unknown error" otherwise. The \<open>catch\<close> block restores nothing and
  resets nothing, so the receiver is left as the handler had written it when the
  exception was raised:
  \<^item> unchanged, for a frame that is \<open>null\<close> or \<open>undefined\<close>;
  \<^item> with the new \<open>metadata\<close> and the old \<open>chunks\<close> and \<open>receivedChunks\<close>, when
    \<open>new Array(totalChunks)\<close> raises;
  \<^item> with the new \<open>metadata\<close>, fresh \<open>chunks\<close> and \<open>receivedChunks\<close> zero, when
    \<open>onStart\<close> throws;
  \<^item> with the chunk stored and \<open>receivedChunks\<close> incremented, when \<open>onProgress\<close>
    throws;
  \<^item> unchanged, so still collecting and not reset, when \<open>onComplete\<close> throws.

  The callback fields are unchanged, and the listener handles the frames that follow
  from that state. Only what \<open>onError\<close> itself throws leaves the listener.
\<close>

theorem C8_exception_in_listener:
  assumes "try_block env r d = (r', calls, Some t)" and "onError r"
  shows "fst (on_data env r d) = r'
       \<and> fst (snd (on_data env r d)) = calls @ [OnError (caught t)]
       \<and> error_calls (fst (snd (on_data env r d))) = [caught t]
       \<and> snd (snd (on_data env r d)) = env (OnError (caught t))
       \<and> onStart r' = onStart r \<and> onProgress r' = onProgress r
       \<and> onComplete r' = onComplete r \<and> onError r' = onError r
       \<and> (d = Nullish \<and> t = An_Error TypeError \<and> calls = [] \<and> r' = r
          \<or> (\<exists>m. d = Message (Metadata m) \<and> MAX_ARRAY_LENGTH < totalChunks m
                  \<and> t = An_Error RangeError \<and> calls = [] \<and> r' = r\<lparr>metadata := Some m\<rparr>)
          \<or> (\<exists>m. d = Message (Metadata m) \<and> totalChunks m \<le> MAX_ARRAY_LENGTH
                  \<and> onStart r \<and> env OnStart = Some t \<and> calls = [OnStart]
                  \<and> r' = r\<lparr>metadata := Some m,
                            chunks := \<lparr>array_length = totalChunks m, element = (\<lambda>i. None)\<rparr>,
                            receivedChunks := 0\<rparr>)
          \<or> (\<exists>c m. d = Message (Chunk c) \<and> metadata r = Some m \<and> onProgress r
                  \<and> env (OnProgress (percent (receivedChunks r + 1) (totalChunks m))) = Some t
                  \<and> calls = [OnProgress (percent (receivedChunks r + 1) (totalChunks m))]
                  \<and> r' = r\<lparr>chunks := array_put (chunks r) (index c) (data c),
                            receivedChunks := receivedChunks r + 1\<rparr>)
          \<or> (\<exists>m. d = Message Complete \<and> metadata r = Some m \<and> onComplete r
                  \<and> env (OnComplete (new_Blob (chunks r) (fileType m)) (fileName m) (fileType m))
                      = Some t
                  \<and> calls = [OnComplete (new_Blob (chunks r) (fileType m)) (fileName m)
                                (fileType m)]
                  \<and> r' = r))
       \<and> receive_with r ((env, d) # events) =
           (fst (receive_with r' events),
            calls @ OnError (caught t) # snd (receive_with r' events))"
proof -
  note raised = try_block_raises [OF assms(1)]
  note fields = try_block_raises_fields [OF assms(1)]
  have step: "on_data env r d = (r', calls @ [OnError (caught t)], env (OnError (caught t)))"
    using on_data_raises [OF assms(1)] assms(2) by simp
  have quiet: "error_calls calls = []"
    using raised by auto
  have errors: "error_calls (calls @ [OnError (caught t)]) = [caught t]"
    using raised by auto
  have rest: "receive_with r ((env, d) # events) =
           (fst (receive_with r' events),
            calls @ OnError (caught t) # snd (receive_with r' events))"
    by (simp add: step split: prod.splits)
  show ?thesis
    unfolding step fst_conv snd_conv using errors fields raised rest by blast
qed

theorem C8_exception_in_listener_witness:
  "try_block progress_throws (app_receiver\<lparr>metadata := Some pair_metadata\<rparr>)
       (Message (Chunk \<lparr>index = 0, data = [72]\<rparr>))
     = (app_receiver\<lparr>metadata := Some pair_metadata,
                      chunks := array_put empty_array 0 [72], receivedChunks := 1\<rparr>,
        [OnProgress (Finite 50)], Some Not_An_Error)
   \<and> onError (app_receiver\<lparr>metadata := Some pair_metadata\<rparr>)
   \<and> fst (on_data progress_throws (app_receiver\<lparr>metadata := Some pair_metadata\<rparr>)
            (Message (Chunk \<lparr>index = 0, data = [72]\<rparr>)))
     = app_receiver\<lparr>metadata := Some pair_metadata,
                     chunks := array_put empty_array 0 [72], receivedChunks := 1\<rparr>
   \<and> fst (snd (on_data progress_throws (app_receiver\<lparr>metadata := Some pair_metadata\<rparr>)
            (Message (Chunk \<lparr>index = 0, data = [72]\<rparr>))))
     = [OnProgress (Finite 50), OnError (Error ''Unknown error'')]
   \<and> receivedChunks (app_receiver\<lparr>metadata := Some pair_metadata\<rparr>) = 0"
proof -
  let ?r = "app_receiver\<lparr>metadata := Some pair_metadata\<rparr>"
  let ?r' = "app_receiver\<lparr>metadata := Some pair_metadata,
                           chunks := array_put empty_array 0 [72], receivedChunks := 1\<rparr>"
  let ?d = "Message (Chunk \<lparr>index = 0, data = [72]\<rparr>)"
  have p: "percent (Suc 0) 2 = Finite 50" by (simp add: number_eval)
  have h1: "try_block progress_throws ?r ?d = (?r', [OnProgress (Finite 50)], Some Not_An_Error)"
    by (simp add: app_receiver_def new_FileReceiver_def pair_metadata_def progress_throws_def
        call_def p)
  have h2: "onError ?r" by (simp add: app_receiver_def)
  have h3: "receivedChunks ?r = 0" by (simp add: app_receiver_def new_FileReceiver_def)
  note inst = C8_exception_in_listener [OF h1 h2]
  have a: "fst (on_data progress_throws ?r ?d) = ?r'" using inst by blast
  have "fst (snd (on_data progress_throws ?r ?d))
      = [OnProgress (Finite 50)] @ [OnError (caught Not_An_Error)]"
    using inst by blast
  then have b: "fst (snd (on_data progress_throws ?r ?d))
      = [OnProgress (Finite 50), OnError (Error ''Unknown error'')]"
    by simp
  from h1 h2 h3 a b show ?thesis by blast
qed

theorem C8_state_counterexample:
  "listener app_receiver (Message (Metadata huge_metadata))
     = (app_receiver\<lparr>metadata := Some huge_metadata\<rparr>, [OnError RangeError])
   \<and> metadata (app_receiver\<lparr>metadata := Some huge_metadata\<rparr>) \<noteq> metadata app_receiver"
proof -
  have big: "MAX_ARRAY_LENGTH < totalChunks huge_metadata"
    by (simp add: MAX_ARRAY_LENGTH_def huge_metadata_def)
  have "onError app_receiver" by (simp add: app_receiver_def)
  then have "listener app_receiver (Message (Metadata huge_metadata))
     = (app_receiver\<lparr>metadata := Some huge_metadata\<rparr>, [OnError RangeError])"
    using listener_metadata_invalid [OF big, of app_receiver] by simp
  moreover have "metadata (app_receiver\<lparr>metadata := Some huge_metadata\<rparr>)
      \<noteq> metadata app_receiver"
    by (simp add: app_receiver_def new_FileReceiver_def)
  ultimately show ?thesis by blast
qed

text \<open>
  Claim C9. A \<open>Chunk\<close> frame whose index is at or beyond the announced \<open>totalChunks\<close>,
  arriving while the receiver is collecting, is handled like any other: its payload
  is stored under its index, \<open>receivedChunks\<close> is incremented and \<open>onProgress\<close> is
  called; \<open>onError\<close> is not. So the payload handed to \<open>onComplete\<close> can be longer
  than the announced \<open>fileSize\<close>, as for the two-byte file announced with one chunk
  that is followed by a second chunk.
\<close>

theorem C9_chunk_beyond_total:
  assumes "metadata r = Some m" and "totalChunks m \<le> index c" and "onProgress r"
  shows "listener r (Message (Chunk c)) =
           (r\<lparr>chunks := array_put (chunks r) (index c) (data c),
              receivedChunks := receivedChunks r + 1\<rparr>,
            [OnProgress (percent (receivedChunks r + 1) (totalChunks m))])
       \<and> element (chunks (fst (listener r (Message (Chunk c))))) (index c) = Some (data c)
       \<and> (\<forall>e. OnError e \<notin> set (snd (listener r (Message (Chunk c)))))
       \<and> snd (receive app_receiver
            [Message (Metadata note_metadata), Message (Chunk \<lparr>index = 0, data = [72, 105]\<rparr>),
             Message (Chunk \<lparr>index = 1, data = [33]\<rparr>), Message Complete])
         = [OnStart, OnProgress (Finite 100), OnProgress (Finite 200),
            OnComplete \<lparr>blob_bytes = [72, 105, 33], blob_type = ''text/plain''\<rparr>
              ''a.txt'' ''text/plain'']
       \<and> fileSize note_metadata < length [72, 105, 33 :: 8 word]"
proof -
  have step: "listener r (Message (Chunk c)) =
           (r\<lparr>chunks := array_put (chunks r) (index c) (data c),
              receivedChunks := receivedChunks r + 1\<rparr>,
            [OnProgress (percent (receivedChunks r + 1) (totalChunks m))])"
    using listener_chunk_collecting [OF assms(1), of c] assms(3) by simp
  have stored: "element (chunks (fst (listener r (Message (Chunk c))))) (index c)
      = Some (data c)"
    by (simp add: step array_put_element)
  have quiet: "\<forall>e. OnError e \<notin> set (snd (listener r (Message (Chunk c))))"
    by (simp add: step)
  have p: "percent (Suc 0) (Suc 0) = Finite 100" "percent (Suc (Suc 0)) (Suc 0) = Finite 200"
    by (simp_all add: number_eval)
  have two: "[0..<2] = [0, 1]" by (simp add: upt_rec)
  have longer: "snd (receive app_receiver
            [Message (Metadata note_metadata), Message (Chunk \<lparr>index = 0, data = [72, 105]\<rparr>),
             Message (Chunk \<lparr>index = 1, data = [33]\<rparr>), Message Complete])
         = [OnStart, OnProgress (Finite 100), OnProgress (Finite 200),
            OnComplete \<lparr>blob_bytes = [72, 105, 33], blob_type = ''text/plain''\<rparr>
              ''a.txt'' ''text/plain'']"
    by (simp add: receive_eval note_metadata_def p two)
  have size: "fileSize note_metadata < length [72, 105, 33 :: 8 word]"
    by (simp add: note_metadata_def)
  from step stored quiet longer size show ?thesis by blast
qed

theorem C9_chunk_beyond_total_witness:
  "metadata (app_receiver\<lparr>metadata := Some note_metadata\<rparr>) = Some note_metadata
   \<and> totalChunks note_metadata \<le> index \<lparr>index = 1, data = [33]\<rparr>
   \<and> onProgress (app_receiver\<lparr>metadata := Some note_metadata\<rparr>)
   \<and> snd (listener (app_receiver\<lparr>metadata := Some note_metadata\<rparr>)
            (Message (Chunk \<lparr>index = 1, data = [33]\<rparr>))) = [OnProgress (Finite 100)]
   \<and> element (chunks (fst (listener (app_receiver\<lparr>metadata := Some note_metadata\<rparr>)
                              (Message (Chunk \<lparr>index = 1, data = [33]\<rparr>))))) 1 = Some [33]"
proof -
  let ?r = "app_receiver\<lparr>metadata := Some note_metadata\<rparr>"
  let ?c = "\<lparr>index = 1, data = [33 :: 8 word]\<rparr>"
  have h1: "metadata ?r = Some note_metadata" by simp
  have h2: "totalChunks note_metadata \<le> index ?c" by (simp add: note_metadata_def)
  have h3: "onProgress ?r" by (simp add: app_receiver_def)
  have p: "percent (receivedChunks ?r + 1) (totalChunks note_metadata) = Finite 100"
    by (simp add: app_receiver_def new_FileReceiver_def note_metadata_def number_eval)
  note inst = C9_chunk_beyond_total [OF h1 h2 h3]
  have "snd (listener ?r (Message (Chunk ?c)))
      = [OnProgress (percent (receivedChunks ?r + 1) (totalChunks note_metadata))]"
    using inst by simp
  then have calls: "snd (listener ?r (Message (Chunk ?c))) = [OnProgress (Finite 100)]"
    by (simp only: p)
  have "element (chunks (fst (listener ?r (Message (Chunk ?c))))) (index ?c) = Some (data ?c)"
    using inst by blast
  then have stored: "element (chunks (fst (listener ?r (Message (Chunk ?c))))) 1 = Some [33]"
    by simp
  from h1 h2 h3 calls stored show ?thesis by blast
qed

text \<open>
  Claim C10. A \<open>Complete\<close> frame delivered while the receiver is idle is ignored:
  neither \<open>onComplete\<close> nor any other callback is called and the receiver is
  unchanged.
\<close>

theorem C10_complete_while_idle:
  "metadata r = None \<Longrightarrow> listener r (Message Complete) = (r, [])"
  by (simp add: listener_def on_data_def)

theorem C10_complete_while_idle_witness:
  "metadata app_receiver = None \<and> listener app_receiver (Message Complete) = (app_receiver, [])"
proof -
  have idle: "metadata app_receiver = None"
    by (simp add: app_receiver_def new_FileReceiver_def)
  from C10_complete_while_idle [OF idle] idle show ?thesis by simp
qed

end
